theory Spec2Isabelle
  imports Complex_Main "HOL-Library.Word" "HOL-Library.Sublist"
begin

unbundle bit_operations_syntax

section \<open>Level computation: \<open>calculateAudioLevel\<close>\<close>

text \<open>
  \<open>AudioLevelData\<close> is the struct of package \<open>myaudio\<close>. A PCM chunk is a byte slice.
  Go's \<open>float64\<close> is modelled by exact real arithmetic, extended with the one special
  value the function can produce: \<open>math.Log10\<close> returns \<open>-Inf\<close> at \<open>0\<close>. Its argument is a
  square root divided by a positive constant, so it is never negative. Rounding is not
  modelled: a statement that depends on the exact value of a computed number is made
  with a margin.
\<close>

type_synonym byte = "8 word"

record AudioLevelData =
  Level :: int
  Clipping :: bool
  Source :: string
  Name :: string

datatype float64 = NegInf | Fin real

text \<open>\<open>binary.LittleEndian.Uint16\<close> on a two-byte slice, and the conversion \<open>int16(...)\<close>.\<close>

definition Uint16 :: "byte \<Rightarrow> byte \<Rightarrow> 16 word" where
  "Uint16 b0 b1 = ucast b0 OR push_bit 8 (ucast b1)"

definition int16 :: "16 word \<Rightarrow> int" where
  "int16 w = sint w"

text \<open>
  The loop \<open>for i := 0; i < len(samples); i += 2\<close> with its \<open>break\<close> when \<open>i+1 >= len(samples)\<close>.
  The accumulator is \<open>(sum, maxSample, isClipping)\<close>; the source's \<open>sum\<close> is named \<open>sumSq\<close> here.
\<close>

fun sampleLoop :: "byte list \<Rightarrow> real \<times> real \<times> bool \<Rightarrow> real \<times> real \<times> bool" where
  "sampleLoop (b0 # b1 # rest) (sumSq, maxSample, isClipping) =
     (let sample = int16 (Uint16 b0 b1);
          sampleAbs = \<bar>real_of_int sample\<bar>;
          sumSq' = sumSq + sampleAbs * sampleAbs;
          maxSample' = (if sampleAbs > maxSample then sampleAbs else maxSample);
          isClipping' = (if sample = 32767 \<or> sample = - 32768 then True else isClipping)
      in sampleLoop rest (sumSq', maxSample', isClipping'))"
| "sampleLoop [b] acc = acc"
| "sampleLoop [] acc = acc"

text \<open>\<open>math.Log10\<close> on a non-negative argument.\<close>

definition Log10 :: "real \<Rightarrow> float64" where
  "Log10 x = (if x = 0 then NegInf else Fin (log 10 x))"

text \<open>\<open>20 * x\<close>, \<open>x + 60\<close> and \<open>x * (100.0 / 50.0)\<close>: \<open>-Inf\<close> stays \<open>-Inf\<close>.\<close>

fun times20 :: "float64 \<Rightarrow> float64" where
  "times20 NegInf = NegInf"
| "times20 (Fin x) = Fin (20 * x)"

fun scaleDb :: "float64 \<Rightarrow> float64" where
  "scaleDb NegInf = NegInf"
| "scaleDb (Fin db) = Fin ((db + 60) * (100 / 50))"

text \<open>\<open>math.Max(scaledLevel, 95)\<close>.\<close>

fun Max95 :: "float64 \<Rightarrow> float64" where
  "Max95 NegInf = Fin 95"
| "Max95 (Fin x) = Fin (max x 95)"

text \<open>The clamp \<open>if scaledLevel < 0 {...} else if scaledLevel > 100 {...}\<close>; its result is finite.\<close>

fun clampLevel :: "float64 \<Rightarrow> real" where
  "clampLevel NegInf = 0"
| "clampLevel (Fin x) = (if x < 0 then 0 else if x > 100 then 100 else x)"

text \<open>Go's conversion \<open>int(x)\<close> of a finite float truncates towards zero.\<close>

definition goInt :: "real \<Rightarrow> int" where
  "goInt x = (if x \<ge> 0 then \<lfloor>x\<rfloor> else \<lceil>x\<rceil>)"

text \<open>Lines 858-874: from the decibel value and the clipping flag to the level.\<close>

definition levelOfDb :: "float64 \<Rightarrow> bool \<Rightarrow> int" where
  "levelOfDb db isClipping =
     (let scaledLevel = scaleDb db;
          scaledLevel = (if isClipping then Max95 scaledLevel else scaledLevel)
      in goInt (clampLevel scaledLevel))"

definition calculateAudioLevel :: "byte list \<Rightarrow> string \<Rightarrow> string \<Rightarrow> AudioLevelData" where
  "calculateAudioLevel samples0 source name =
     (if length samples0 = 0
      then \<lparr>Level = 0, Clipping = False, Source = source, Name = name\<rparr>
      else
        let samples = (if length samples0 mod 2 \<noteq> 0
                       then take (length samples0 - 1) samples0 else samples0);
            sampleCount = length samples div 2;
            (sumSq, maxSample, isClipping) = sampleLoop samples (0, 0, False)
        in if sampleCount = 0
           then \<lparr>Level = 0, Clipping = False, Source = source, Name = name\<rparr>
           else
             let rms = sqrt (sumSq / real sampleCount);
                 db = times20 (Log10 (rms / 32768))
             in \<lparr>Level = levelOfDb db isClipping, Clipping = isClipping,
                 Source = source, Name = name\<rparr>)"

text \<open>
  The 16-bit samples of a chunk, as the loop reads them: consecutive byte pairs,
  little-endian, a trailing unpaired byte left out. Used to state properties only.
\<close>

fun pcmSamples :: "byte list \<Rightarrow> int list" where
  "pcmSamples (b0 # b1 # rest) = int16 (Uint16 b0 b1) # pcmSamples rest"
| "pcmSamples [b] = []"
| "pcmSamples [] = []"








section \<open>Display names: \<open>cleanRTSPUrl\<close>\<close>

text \<open>
  Both loops of \<open>cleanRTSPUrl\<close> scan \<open>url\<close> from index \<open>i\<close> for the first occurrence of a
  byte and leave \<open>-1\<close> in the index variable when there is none.
\<close>

function findFrom :: "char \<Rightarrow> string \<Rightarrow> nat \<Rightarrow> int" where
  "findFrom c url i =
     (if i < length url
      then (if url ! i = c then int i else findFrom c url (i + 1))
      else - 1)"
  by pat_completeness auto
termination
  by (relation "measure (\<lambda>(c, url, i). length url - i)") auto

definition cleanRTSPUrl :: "string \<Rightarrow> string" where
  "cleanRTSPUrl url0 =
     (let atIndex = findFrom (CHR ''@'') url0 (length ''rtsp://'');
          url1 = (if atIndex > - 1 then ''rtsp://'' @ drop (nat (atIndex + 1)) url0 else url0);
          slashIndex = findFrom (CHR ''/'') url1 (length ''rtsp://'');
          url2 = (if slashIndex > - 1 then take (nat slashIndex) url1 else url1)
      in url2)"

section \<open>Per-source activity tracking of the level stream\<close>

text \<open>
  \<open>time.Time\<close> and \<open>time.Duration\<close> are integers (nanoseconds); \<open>now.Sub(t)\<close> is the
  difference. The three maps of \<open>AudioLevelSSE\<close> are kept in one record. \<open>settings\<close> holds
  the two fields of \<open>h.Settings.Realtime\<close> that the handler reads.
\<close>

type_synonym time = int

record settings =
  AudioSource :: string
  RTSPURLs :: "string list"

record sseState =
  levels :: "string \<rightharpoonup> AudioLevelData"
  lastUpdateTime :: "string \<rightharpoonup> time"
  lastNonZeroTime :: "string \<rightharpoonup> time"

definition inactivityThreshold :: int where
  "inactivityThreshold = 15 * 1000000000"

text \<open>Decimal digits of a number, for \<open>fmt.Sprintf("camera-%d", i+1)\<close>.\<close>

function showNat :: "nat \<Rightarrow> string" where
  "showNat n =
     (if n < 10 then [char_of (48 + n)]
      else showNat (n div 10) @ [char_of (48 + n mod 10)])"
  by pat_completeness auto
termination
  by (relation "measure id") auto

definition cameraName :: "nat \<Rightarrow> string" where
  "cameraName i = ''camera-'' @ showNat (i + 1)"

text \<open>
  The loop over \<open>h.Settings.Realtime.RTSP.URLs\<close> in \<open>initializeLevelsData\<close>; \<open>i\<close> is the index
  of the head of the remaining list and \<open>nowAt i\<close> the clock reading of that iteration.
\<close>

fun initRTSP :: "bool \<Rightarrow> (nat \<Rightarrow> time) \<Rightarrow> nat \<Rightarrow> string list \<Rightarrow> sseState \<Rightarrow> sseState" where
  "initRTSP isAuthenticated nowAt i [] st = st"
| "initRTSP isAuthenticated nowAt i (url # rest) st =
     (let displayName = (if isAuthenticated then cleanRTSPUrl url else cameraName i);
          now = nowAt i
      in initRTSP isAuthenticated nowAt (i + 1) rest
           \<lparr>levels = (levels st)(url \<mapsto> \<lparr>Level = 0, Clipping = False, Source = url, Name = displayName\<rparr>),
            lastUpdateTime = (lastUpdateTime st)(url \<mapsto> now),
            lastNonZeroTime = (lastNonZeroTime st)(url \<mapsto> now)\<rparr>)"

definition initializeLevelsData :: "settings \<Rightarrow> bool \<Rightarrow> time \<Rightarrow> (nat \<Rightarrow> time) \<Rightarrow> sseState" where
  "initializeLevelsData cfg isAuthenticated nowDevice nowAt =
     (let st0 = \<lparr>levels = Map.empty, lastUpdateTime = Map.empty, lastNonZeroTime = Map.empty\<rparr>;
          st1 = (if AudioSource cfg \<noteq> []
                 then let sourceName = (if \<not> isAuthenticated then ''audio-source-1''
                                        else AudioSource cfg)
                      in \<lparr>levels = (levels st0)(''malgo'' \<mapsto>
                                      \<lparr>Level = 0, Clipping = False, Source = ''malgo'', Name = sourceName\<rparr>),
                          lastUpdateTime = (lastUpdateTime st0)(''malgo'' \<mapsto> nowDevice),
                          lastNonZeroTime = (lastNonZeroTime st0)(''malgo'' \<mapsto> nowDevice)\<rparr>
                 else st0)
      in initRTSP isAuthenticated nowAt 0 (RTSPURLs cfg) st1)"

definition isSourceInactive ::
  "string \<Rightarrow> time \<Rightarrow> (string \<rightharpoonup> time) \<Rightarrow> (string \<rightharpoonup> time) \<Rightarrow> int \<Rightarrow> bool" where
  "isSourceInactive source now lastUpdateTimes lastNonZeroTimes threshold =
     (case (lastUpdateTimes source, lastNonZeroTimes source) of
        (Some lastUpdate, Some lastNonZero) \<Rightarrow>
          (let noUpdateTimeout = now - lastUpdate > threshold;
               noActivityTimeout = now - lastNonZero > threshold
           in noUpdateTimeout \<or> noActivityTimeout)
      | _ \<Rightarrow> False)"

text \<open>The search \<open>for i, url := range URLs { if url == audioData.Source {...; break} }\<close>.\<close>

fun cameraNameOf :: "string list \<Rightarrow> nat \<Rightarrow> string \<Rightarrow> string option" where
  "cameraNameOf [] i source = None"
| "cameraNameOf (url # rest) i source =
     (if url = source then Some (cameraName i) else cameraNameOf rest (i + 1) source)"

definition updateAudioLevels ::
  "settings \<Rightarrow> time \<Rightarrow> AudioLevelData \<Rightarrow> bool \<Rightarrow> int \<Rightarrow> sseState \<Rightarrow> sseState" where
  "updateAudioLevels cfg now audioData0 isAuthenticated threshold st =
     (let audioData =
            (if Source audioData0 = ''malgo''
             then (if isAuthenticated then audioData0\<lparr>Name := AudioSource cfg\<rparr>
                   else audioData0\<lparr>Name := ''audio-source-1''\<rparr>)
             else (if isAuthenticated then audioData0\<lparr>Name := cleanRTSPUrl (Source audioData0)\<rparr>
                   else (case cameraNameOf (RTSPURLs cfg) 0 (Source audioData0) of
                           Some n \<Rightarrow> audioData0\<lparr>Name := n\<rparr>
                         | None \<Rightarrow> audioData0)));
          lastUpdateTimes = (lastUpdateTime st)(Source audioData \<mapsto> now);
          lastNonZeroTimes = (if Level audioData > 0
                              then (lastNonZeroTime st)(Source audioData \<mapsto> now)
                              else lastNonZeroTime st)
      in if \<not> isSourceInactive (Source audioData) now lastUpdateTimes lastNonZeroTimes threshold
         then \<lparr>levels = (levels st)(Source audioData \<mapsto> audioData),
               lastUpdateTime = lastUpdateTimes, lastNonZeroTime = lastNonZeroTimes\<rparr>
         else \<lparr>levels = (levels st)(Source audioData \<mapsto> audioData\<lparr>Level := 0\<rparr>),
               lastUpdateTime = lastUpdateTimes, lastNonZeroTime = lastNonZeroTimes\<rparr>)"

text \<open>
  \<open>checkSourceActivity\<close> visits every entry of \<open>levels\<close>; it returns \<open>updated\<close> and leaves
  the new values in the map.
\<close>

definition checkSourceActivity :: "time \<Rightarrow> int \<Rightarrow> sseState \<Rightarrow> bool \<times> sseState" where
  "checkSourceActivity now threshold st =
     (let stale = (\<lambda>source data.
            isSourceInactive source now (lastUpdateTime st) (lastNonZeroTime st) threshold
            \<and> Level data \<noteq> 0)
      in (\<exists>source data. levels st source = Some data \<and> stale source data,
          st\<lparr>levels := (\<lambda>source. case levels st source of
                            None \<Rightarrow> None
                          | Some data \<Rightarrow> if stale source data then Some (data\<lparr>Level := 0\<rparr>)
                                         else Some data)\<rparr>))"

text \<open>
  The \<open>select\<close> loop of \<open>AudioLevelSSE\<close>, as far as it touches the three maps: a message on
  \<open>h.AudioLevelChan\<close> (with the clock reading and the access check of that moment), or a
  tick of \<open>activityCheck\<close>. Both use the constant \<open>inactivityThreshold\<close>.
\<close>

datatype sseEvent = LevelMessage AudioLevelData time bool | ActivityTick time

fun sseStep :: "settings \<Rightarrow> sseState \<Rightarrow> sseEvent \<Rightarrow> sseState" where
  "sseStep cfg st (LevelMessage audioData now isAuthenticated) =
     updateAudioLevels cfg now audioData isAuthenticated inactivityThreshold st"
| "sseStep cfg st (ActivityTick now) = snd (checkSourceActivity now inactivityThreshold st)"

definition sseRun :: "settings \<Rightarrow> bool \<Rightarrow> time \<Rightarrow> (nat \<Rightarrow> time) \<Rightarrow> sseEvent list \<Rightarrow> sseState" where
  "sseRun cfg isAuthenticated nowDevice nowAt evs =
     foldl (sseStep cfg) (initializeLevelsData cfg isAuthenticated nowDevice nowAt) evs"

text \<open>The level carried by a message is never negative (it comes from \<open>calculateAudioLevel\<close>).\<close>

fun levelNonNegative :: "sseEvent \<Rightarrow> bool" where
  "levelNonNegative (LevelMessage audioData now isAuthenticated) = (0 \<le> Level audioData)"
| "levelNonNegative (ActivityTick now) = True"

text \<open>
  What the handler maintains about its three maps: a source with a level entry has a last
  update time, and as long as it has no last non-zero time its level is 0.
\<close>

definition tracked :: "sseState \<Rightarrow> bool" where
  "tracked st =
     (\<forall>source data. levels st source = Some data \<longrightarrow>
        lastUpdateTime st source \<noteq> None \<and>
        (lastNonZeroTime st source = None \<longrightarrow> Level data = 0))"

text \<open>An example run: a device and one camera, one level message for the device at 1 s.\<close>

definition exampleSettings :: settings where
  "exampleSettings = \<lparr>AudioSource = ''hw:0'', RTSPURLs = [''rtsp://u:p@cam/live'']\<rparr>"

definition exampleRun :: sseState where
  "exampleRun = sseRun exampleSettings True 0 (\<lambda>i. 0)
     [LevelMessage \<lparr>Level = 40, Clipping = False, Source = ''malgo'', Name = []\<rparr>
        1000000000 True]"

section \<open>Stream reconfiguration: \<open>ReconfigureRTSPStreams\<close>\<close>

text \<open>
  The package-level state the function works on: the monitor pointer \<open>ffmpegMonitor\<close>
  (\<open>True\<close> when it is not \<open>nil\<close>), the keys of the two \<open>sync.Map\<close>s \<open>activeStreams\<close> and
  \<open>ffmpegProcesses\<close>, and the keys of the buffer maps \<open>analysisBuffers\<close> and
  \<open>captureBuffers\<close>. \<open>activeStreams\<close> is a list: its order is the order in which \<open>Range\<close>
  enumerates the keys, about which nothing is assumed.

  Every call that acts outside the function is recorded as an event, in program order.
  \<open>DrainAck\<close> stands for the writer of a source acknowledging that it has stopped; no
  statement of \<open>ReconfigureRTSPStreams\<close> waits for such a signal, so no run records it. It
  is there to state the stop-before-free rule of the specification.
\<close>

datatype bufferKind = AnalysisBuffer | CaptureBuffer

datatype allocError = DuplicateSource | ResourceExhausted

datatype event =
    MonitorStop
  | MonitorStart
  | Cleanup string
  | Sleep nat
  | Deactivate string
  | LogRemoved string
  | Remove bufferKind string
  | LogRemoveFailed bufferKind string
  | Allocate bufferKind string
  | LogAllocFailed bufferKind string
  | Activate string
  | Spawn string
  | DrainAck string

record rtspState =
  ffmpegMonitor :: bool
  activeStreams :: "string list"
  ffmpegProcesses :: "string set"
  analysisBuffers :: "string set"
  captureBuffers :: "string set"

text \<open>
  Modelled from the spec: \<open>AllocateAnalysisBuffer\<close> and \<open>AllocateCaptureBuffer\<close> of package
  \<open>myaudio\<close>, whose source is not among the files. A reservation fails with
  \<open>DuplicateSource\<close> if the source already has the buffer and with an allocation error when
  resources are exhausted; \<open>available\<close> says whether resources suffice for this request.
  The sizes passed by the caller are constants of package \<open>conf\<close>.
\<close>

definition AllocateAnalysisBuffer :: "bool \<Rightarrow> string \<Rightarrow> rtspState \<Rightarrow> allocError + rtspState" where
  "AllocateAnalysisBuffer available url s =
     (if url \<in> analysisBuffers s then Inl DuplicateSource
      else if \<not> available then Inl ResourceExhausted
      else Inr (s\<lparr>analysisBuffers := insert url (analysisBuffers s)\<rparr>))"

definition AllocateCaptureBuffer :: "bool \<Rightarrow> string \<Rightarrow> rtspState \<Rightarrow> allocError + rtspState" where
  "AllocateCaptureBuffer available url s =
     (if url \<in> captureBuffers s then Inl DuplicateSource
      else if \<not> available then Inl ResourceExhausted
      else Inr (s\<lparr>captureBuffers := insert url (captureBuffers s)\<rparr>))"

text \<open>
  Modelled from the spec: \<open>RemoveAnalysisBuffer\<close> and \<open>RemoveCaptureBuffer\<close> of package
  \<open>myaudio\<close>, not among the files. The buffer of the source is freed; for a source without
  one an error is returned (first component \<open>True\<close>), which the caller only logs.
\<close>

definition RemoveAnalysisBuffer :: "string \<Rightarrow> rtspState \<Rightarrow> bool \<times> rtspState" where
  "RemoveAnalysisBuffer url s =
     (url \<notin> analysisBuffers s, s\<lparr>analysisBuffers := analysisBuffers s - {url}\<rparr>)"

definition RemoveCaptureBuffer :: "string \<Rightarrow> rtspState \<Rightarrow> bool \<times> rtspState" where
  "RemoveCaptureBuffer url s =
     (url \<notin> captureBuffers s, s\<lparr>captureBuffers := captureBuffers s - {url}\<rparr>)"

text \<open>
  Modelled from the spec: \<open>FFmpegProcess.Cleanup\<close>, not among the files, terminates the
  decoder process of the source and returns when it has been reaped.
\<close>

definition Cleanup_process :: "string \<Rightarrow> rtspState \<Rightarrow> rtspState" where
  "Cleanup_process url s = s\<lparr>ffmpegProcesses := ffmpegProcesses s - {url}\<rparr>"

text \<open>
  The body of the first loop for a stream that is not found in the settings (lines
  484-506): stop the process, unmark the stream, sleep, remove both buffers.
\<close>

definition stopStream :: "string \<Rightarrow> rtspState \<Rightarrow> rtspState \<times> event list" where
  "stopStream url s =
     (let (s1, ev1) = (if url \<in> ffmpegProcesses s
                       then (Cleanup_process url s, [Cleanup url, Sleep 100])
                       else (s, []));
          s2 = s1\<lparr>activeStreams := removeAll url (activeStreams s1)\<rparr>;
          (err3, s3) = RemoveAnalysisBuffer url s2;
          (err4, s4) = RemoveCaptureBuffer url s3
      in (s4, ev1 @ [Deactivate url, LogRemoved url, Sleep 100, Remove AnalysisBuffer url]
                  @ (if err3 then [LogRemoveFailed AnalysisBuffer url] else [])
                  @ [Remove CaptureBuffer url]
                  @ (if err4 then [LogRemoveFailed CaptureBuffer url] else [])))"

text \<open>The loop \<open>for url := range currentStreams\<close>; \<open>found\<close> is membership in the settings.\<close>

fun stopRemoved :: "string list \<Rightarrow> string list \<Rightarrow> rtspState \<Rightarrow> rtspState \<times> event list" where
  "stopRemoved urls [] s = (s, [])"
| "stopRemoved urls (url # rest) s =
     (if url \<in> set urls then stopRemoved urls rest s
      else let (s1, ev1) = stopStream url s;
               (s2, ev2) = stopRemoved urls rest s1
           in (s2, ev1 @ ev2))"

text \<open>
  The body of the second loop (lines 512-553). \<open>available kind url\<close> says whether resources
  suffice for a buffer of that kind for \<open>url\<close> during this call. On a failed capture-buffer
  allocation after a fresh analysis buffer the source calls \<open>RemoveCaptureBuffer\<close>.
\<close>

definition startStream ::
  "(bufferKind \<Rightarrow> string \<Rightarrow> bool) \<Rightarrow> string \<Rightarrow> rtspState \<Rightarrow> rtspState \<times> event list" where
  "startStream available url s =
     (if url \<in> set (activeStreams s) then (s, [])
      else
        let abExists = url \<in> analysisBuffers s;
            cbExists = url \<in> captureBuffers s
        in case (if \<not> abExists
                 then AllocateAnalysisBuffer (available AnalysisBuffer url) url s
                 else Inr s) of
             Inl err \<Rightarrow> (s, [Allocate AnalysisBuffer url, LogAllocFailed AnalysisBuffer url])
           | Inr s1 \<Rightarrow>
               let ev1 = (if \<not> abExists then [Allocate AnalysisBuffer url] else [])
               in case (if \<not> cbExists
                        then AllocateCaptureBuffer (available CaptureBuffer url) url s1
                        else Inr s1) of
                    Inl err \<Rightarrow>
                      let (s2, ev2) =
                            (if \<not> abExists
                             then let (rmErr, s') = RemoveCaptureBuffer url s1
                                  in (s', Remove CaptureBuffer url
                                          # (if rmErr then [LogRemoveFailed CaptureBuffer url]
                                             else []))
                             else (s1, []))
                      in (s2, ev1 @ [Allocate CaptureBuffer url] @ ev2
                                  @ [LogAllocFailed CaptureBuffer url])
                  | Inr s2 \<Rightarrow>
                      (s2\<lparr>activeStreams := activeStreams s2 @ [url]\<rparr>,
                       ev1 @ (if \<not> cbExists then [Allocate CaptureBuffer url] else [])
                           @ [Activate url, Spawn url]))"

fun startStreams ::
  "(bufferKind \<Rightarrow> string \<Rightarrow> bool) \<Rightarrow> string list \<Rightarrow> rtspState \<Rightarrow> rtspState \<times> event list" where
  "startStreams available [] s = (s, [])"
| "startStreams available (url # rest) s =
     (let (s1, ev1) = startStream available url s;
          (s2, ev2) = startStreams available rest s1
      in (s2, ev1 @ ev2))"

definition ReconfigureRTSPStreams ::
  "(bufferKind \<Rightarrow> string \<Rightarrow> bool) \<Rightarrow> string list \<Rightarrow> rtspState \<Rightarrow> rtspState \<times> event list" where
  "ReconfigureRTSPStreams available urls s =
     (if length urls = 0
      then (if ffmpegMonitor s then (s\<lparr>ffmpegMonitor := False\<rparr>, [MonitorStop]) else (s, []))
      else
        let (s1, ev1) = (if \<not> ffmpegMonitor s
                         then (s\<lparr>ffmpegMonitor := True\<rparr>, [MonitorStart])
                         else (s, []));
            currentStreams = activeStreams s1;
            (s2, ev2) = stopRemoved urls currentStreams s1;
            (s3, ev3) = startStreams available urls s2
        in (s3, ev1 @ ev2 @ ev3))"

text \<open>The source an event is about, if any.\<close>

fun eventSource :: "event \<Rightarrow> string option" where
  "eventSource (Cleanup u) = Some u"
| "eventSource (Deactivate u) = Some u"
| "eventSource (LogRemoved u) = Some u"
| "eventSource (Remove k u) = Some u"
| "eventSource (LogRemoveFailed k u) = Some u"
| "eventSource (Allocate k u) = Some u"
| "eventSource (LogAllocFailed k u) = Some u"
| "eventSource (Activate u) = Some u"
| "eventSource (Spawn u) = Some u"
| "eventSource (DrainAck u) = Some u"
| "eventSource MonitorStop = None"
| "eventSource MonitorStart = None"
| "eventSource (Sleep ms) = None"

text \<open>
  The stop-before-free rule in the specification's words: scanning a trace, a buffer of a
  source may be removed only when the drain acknowledgment of that source has been seen.
\<close>

fun spec_freedAfterAck :: "string list \<Rightarrow> event list \<Rightarrow> bool" where
  "spec_freedAfterAck acked [] = True"
| "spec_freedAfterAck acked (DrainAck u # es) = spec_freedAfterAck (u # acked) es"
| "spec_freedAfterAck acked (Remove k u # es) = (u \<in> set acked \<and> spec_freedAfterAck acked es)"
| "spec_freedAfterAck acked (e # es) = spec_freedAfterAck acked es"

text \<open>An allocation the second loop would attempt for \<open>u\<close> fails.\<close>

definition allocationFails :: "(bufferKind \<Rightarrow> string \<Rightarrow> bool) \<Rightarrow> rtspState \<Rightarrow> string \<Rightarrow> bool" where
  "allocationFails available s u =
     ((u \<notin> analysisBuffers s \<and> \<not> available AnalysisBuffer u)
      \<or> (u \<notin> captureBuffers s \<and> \<not> available CaptureBuffer u))"

text \<open>An example state: one running stream \<open>rtsp://a\<close> with its process and buffers.\<close>

definition oneStream :: rtspState where
  "oneStream = \<lparr>ffmpegMonitor = True, activeStreams = [''rtsp://a''],
                ffmpegProcesses = {''rtsp://a''}, analysisBuffers = {''rtsp://a''},
                captureBuffers = {''rtsp://a''}\<rparr>"

definition idle :: rtspState where
  "idle = \<lparr>ffmpegMonitor = False, activeStreams = [],
           ffmpegProcesses = {}, analysisBuffers = {}, captureBuffers = {}\<rparr>"

text \<open>
  What the first loop does guarantee before it frees a buffer of \<open>u\<close>: the stream has been
  unmarked and a sleep of 100 ms has followed.
\<close>

definition sleptBeforeFree :: "string \<Rightarrow> event list \<Rightarrow> bool" where
  "sleptBeforeFree u tr =
     (\<forall>pre k post. tr = pre @ Remove k u # post \<longrightarrow>
        (\<exists>a c. pre = a @ [Deactivate u, LogRemoved u, Sleep 100] @ c))"

text \<open>Before a buffer of \<open>u\<close> is freed, the decoder process of \<open>u\<close> has been cleaned up.\<close>

definition cleanedBeforeFree :: "string \<Rightarrow> event list \<Rightarrow> bool" where
  "cleanedBeforeFree u tr =
     (\<forall>pre k post. tr = pre @ Remove k u # post \<longrightarrow> Cleanup u \<in> set pre)"

text \<open>
  Two states agree on every source other than \<open>u\<close>: this is what "the other sources are
  unaffected" compares.
\<close>

definition agreeExcept :: "string \<Rightarrow> rtspState \<Rightarrow> rtspState \<Rightarrow> bool" where
  "agreeExcept u s t =
     (ffmpegMonitor s = ffmpegMonitor t \<and>
      ffmpegProcesses s = ffmpegProcesses t \<and>
      filter (\<lambda>v. v \<noteq> u) (activeStreams s) = filter (\<lambda>v. v \<noteq> u) (activeStreams t) \<and>
      analysisBuffers s - {u} = analysisBuffers t - {u} \<and>
      captureBuffers s - {u} = captureBuffers t - {u})"

text \<open>The events of a trace that are not about \<open>u\<close>.\<close>

definition eventsOfOthers :: "string \<Rightarrow> event list \<Rightarrow> event list" where
  "eventsOfOthers u tr = filter (\<lambda>e. eventSource e \<noteq> Some u) tr"

section \<open>Properties of the level computation\<close>

subsection \<open>The sample loop\<close>

lemma sampleLoop_sum:
  "fst (sampleLoop bs (s, m, c)) =
     s + (\<Sum>x\<leftarrow>pcmSamples bs. \<bar>real_of_int x\<bar> * \<bar>real_of_int x\<bar>)"
  by (induction bs "(s, m, c)" arbitrary: s m c rule: sampleLoop.induct) (simp_all add: Let_def)

lemma sampleLoop_clip:
  "snd (snd (sampleLoop bs (s, m, c))) =
     (c \<or> (\<exists>x\<in>set (pcmSamples bs). x = 32767 \<or> x = - 32768))"
  by (induction bs "(s, m, c)" arbitrary: s m c rule: sampleLoop.induct) (auto simp add: Let_def)

lemma sampleLoop_cases:
  obtains m where "sampleLoop bs (0, 0, False) =
     (\<Sum>x\<leftarrow>pcmSamples bs. \<bar>real_of_int x\<bar> * \<bar>real_of_int x\<bar>, m,
      \<exists>x\<in>set (pcmSamples bs). x = 32767 \<or> x = - 32768)"
proof -
  obtain a m c where eq: "sampleLoop bs (0, 0, False) = (a, m, c)"
    by (metis prod_cases3)
  have "a = (\<Sum>x\<leftarrow>pcmSamples bs. \<bar>real_of_int x\<bar> * \<bar>real_of_int x\<bar>)"
    using sampleLoop_sum [of bs 0 0 False] eq by simp
  moreover have "c = (\<exists>x\<in>set (pcmSamples bs). x = 32767 \<or> x = - 32768)"
    using sampleLoop_clip [of bs 0 0 False] eq by simp
  ultimately show ?thesis using that eq by blast
qed

lemma length_pcmSamples: "length (pcmSamples bs) = length bs div 2"
  by (induction bs rule: pcmSamples.induct) simp_all

lemma pcmSamples_append_odd:
  "even (length bs) \<Longrightarrow> pcmSamples (bs @ [b]) = pcmSamples bs"
  by (induction bs rule: pcmSamples.induct) simp_all

lemma pcmSamples_butlast:
  assumes "odd (length bs)"
  shows "pcmSamples (butlast bs) = pcmSamples bs"
proof -
  from assms have ne: "bs \<noteq> []" by auto
  then have "bs = butlast bs @ [last bs]" by simp
  moreover have "even (length (butlast bs))" using assms ne by simp
  ultimately show ?thesis using pcmSamples_append_odd by metis
qed

lemma pcmSamples_truncate:
  "pcmSamples (if length bs mod 2 \<noteq> 0 then take (length bs - 1) bs else bs) = pcmSamples bs"
proof (cases "odd (length bs)")
  case True
  then have "length bs mod 2 \<noteq> 0" by presburger
  moreover have "take (length bs - 1) bs = butlast bs" by (simp add: butlast_conv_take)
  ultimately show ?thesis using True by (simp add: pcmSamples_butlast del: One_nat_def)
next
  case False
  then have "length bs mod 2 = 0" by presburger
  then show ?thesis by simp
qed

lemma sum_squares_zero:
  "\<forall>x\<in>set xs. x = (0::int) \<Longrightarrow>
   (\<Sum>x\<leftarrow>xs. \<bar>real_of_int x\<bar> * \<bar>real_of_int x\<bar>) = 0"
  by (induction xs) simp_all

subsection \<open>From decibels to the level\<close>

lemma levelOfDb_range: "0 \<le> levelOfDb db c \<and> levelOfDb db c \<le> 100"
  by (cases db) (auto simp: levelOfDb_def goInt_def Let_def floor_le_iff le_floor_iff)

lemma levelOfDb_clipping: "95 \<le> levelOfDb db True"
  by (cases db) (auto simp: levelOfDb_def goInt_def Let_def le_floor_iff)


subsection \<open>The claims about \<open>calculateAudioLevel\<close>\<close>

text \<open>
  Claim C4. A chunk that holds at least one 16-bit sample equal to 32767 or to -32768 is
  reported as clipping, with a level of at least 95.
\<close>

theorem clipping_forces_level:
  assumes "\<exists>x\<in>set (pcmSamples chunk). x = 32767 \<or> x = - 32768"
  shows "Clipping (calculateAudioLevel chunk source name) \<and>
         95 \<le> Level (calculateAudioLevel chunk source name)"
proof -
  let ?samples = "if length chunk mod 2 \<noteq> 0 then take (length chunk - 1) chunk else chunk"
  have same: "pcmSamples ?samples = pcmSamples chunk" by (rule pcmSamples_truncate)
  from assms have "pcmSamples ?samples \<noteq> []" unfolding same by auto
  then have "length (pcmSamples ?samples) \<noteq> 0" by simp
  then have cnt: "length ?samples div 2 \<noteq> 0" unfolding length_pcmSamples .
  then have ne: "length chunk \<noteq> 0" by auto
  obtain m where loop: "sampleLoop ?samples (0, 0, False) =
     (\<Sum>x\<leftarrow>pcmSamples ?samples. \<bar>real_of_int x\<bar> * \<bar>real_of_int x\<bar>, m,
      \<exists>x\<in>set (pcmSamples ?samples). x = 32767 \<or> x = - 32768)"
    by (rule sampleLoop_cases)
  have clip: "\<exists>x\<in>set (pcmSamples ?samples). x = 32767 \<or> x = - 32768"
    unfolding same using assms .
  show ?thesis
    unfolding calculateAudioLevel_def Let_def
    using ne cnt loop clip by (simp add: levelOfDb_clipping)
qed

theorem clipping_forces_level_witness:
  "(\<exists>x\<in>set (pcmSamples [0x10, 0x00, 0xFF, 0x7F]). x = 32767 \<or> x = - 32768) \<and>
   Clipping (calculateAudioLevel [0x10, 0x00, 0xFF, 0x7F] ''malgo'' ''mic'') \<and>
   95 \<le> Level (calculateAudioLevel [0x10, 0x00, 0xFF, 0x7F] ''malgo'' ''mic'')"
proof -
  have h: "\<exists>x\<in>set (pcmSamples [0x10, 0x00, 0xFF, 0x7F]). x = 32767 \<or> x = - 32768"
    by (simp add: Uint16_def int16_def)
  show ?thesis
    using h clipping_forces_level [OF h, of "''malgo''" "''mic''"] by blast
qed

text \<open>
  Claim C5. A chunk whose 16-bit samples are all zero gets level 0 and is not reported as
  clipping.
\<close>

theorem silence_level_zero:
  assumes "\<forall>x\<in>set (pcmSamples chunk). x = 0"
  shows "Level (calculateAudioLevel chunk source name) = 0 \<and>
         \<not> Clipping (calculateAudioLevel chunk source name)"
proof -
  let ?samples = "if length chunk mod 2 \<noteq> 0 then take (length chunk - 1) chunk else chunk"
  have same: "pcmSamples ?samples = pcmSamples chunk" by (rule pcmSamples_truncate)
  obtain m where loop: "sampleLoop ?samples (0, 0, False) =
     (\<Sum>x\<leftarrow>pcmSamples ?samples. \<bar>real_of_int x\<bar> * \<bar>real_of_int x\<bar>, m,
      \<exists>x\<in>set (pcmSamples ?samples). x = 32767 \<or> x = - 32768)"
    by (rule sampleLoop_cases)
  have zero: "(\<Sum>x\<leftarrow>pcmSamples ?samples. \<bar>real_of_int x\<bar> * \<bar>real_of_int x\<bar>) = 0"
    unfolding same using assms by (rule sum_squares_zero)
  have noclip: "\<not> (\<exists>x\<in>set (pcmSamples ?samples). x = 32767 \<or> x = - 32768)"
    unfolding same using assms by auto
  have lvl: "levelOfDb (times20 (Log10 (sqrt (0 / r) / 32768))) False = 0" for r :: real
    by (simp add: Log10_def levelOfDb_def goInt_def)
  show ?thesis
    unfolding calculateAudioLevel_def Let_def
    using loop zero noclip lvl by simp
qed

theorem silence_level_zero_witness:
  "pcmSamples [0, 0, 0, 0, 0, 0] = [0, 0, 0] \<and>
   Level (calculateAudioLevel [0, 0, 0, 0, 0, 0] ''malgo'' ''mic'') = 0 \<and>
   \<not> Clipping (calculateAudioLevel [0, 0, 0, 0, 0, 0] ''malgo'' ''mic'')"
proof -
  have ps: "pcmSamples [0, 0, 0, 0, 0, 0] = [0, 0, 0]"
    by (simp add: Uint16_def int16_def)
  then have h: "\<forall>x\<in>set (pcmSamples [0, 0, 0, 0, 0, 0]). x = 0" by simp
  show ?thesis
    using ps silence_level_zero [OF h, of "''malgo''" "''mic''"] by blast
qed

text \<open>
  Claim C8. For every chunk the level lies between 0 and 100 inclusive.
\<close>

theorem level_in_range:
  "0 \<le> Level (calculateAudioLevel chunk source name) \<and>
   Level (calculateAudioLevel chunk source name) \<le> 100"
  by (simp add: calculateAudioLevel_def Let_def levelOfDb_range split: prod.split)

text \<open>
  Claim C9. On a slice of odd length the result is the result on the slice without its
  last byte: the unpaired byte is ignored.
\<close>

theorem odd_length_ignores_last_byte:
  assumes "odd (length chunk)"
  shows "calculateAudioLevel chunk source name = calculateAudioLevel (butlast chunk) source name"
proof (cases "length chunk = 1")
  case True
  then have "butlast chunk = []" by (cases chunk) auto
  with True show ?thesis by (simp add: calculateAudioLevel_def)
next
  case False
  with assms have len: "length chunk \<ge> 3" by presburger
  have tk: "take (length chunk - 1) chunk = butlast chunk" by (simp add: butlast_conv_take)
  have ev: "even (length (butlast chunk))" using assms len by simp
  have ne: "length (butlast chunk) \<noteq> 0" using len by simp
  show ?thesis
    unfolding calculateAudioLevel_def
    using assms len ev ne tk by (simp add: odd_iff_mod_2_eq_one even_iff_mod_2_eq_zero)
qed

theorem odd_length_ignores_last_byte_witness:
  "odd (length [0x34, 0x12, 0x56 :: byte]) \<and>
   calculateAudioLevel [0x34, 0x12, 0x56] ''malgo'' ''mic'' =
   calculateAudioLevel [0x34, 0x12] ''malgo'' ''mic''"
proof -
  have h: "odd (length [0x34, 0x12, 0x56 :: byte])" by simp
  show ?thesis
    using h odd_length_ignores_last_byte [OF h, of "''malgo''" "''mic''"] by simp
qed

subsection \<open>The rescaling of decibels\<close>
















section \<open>Properties of \<open>cleanRTSPUrl\<close>\<close>

declare findFrom.simps [simp del]

declare showNat.simps [simp del]

lemma findFrom_end: "findFrom c pre (length pre) = - 1"
  by (subst findFrom.simps) simp

text \<open>Scanning from the end of a prefix finds the first occurrence in the rest.\<close>

lemma findFrom_append:
  "findFrom c (pre @ xs) (length pre) =
     (if c \<in> set xs then int (length pre + length (takeWhile (\<lambda>x. x \<noteq> c) xs)) else - 1)"
proof (induction xs arbitrary: pre)
  case Nil
  show ?case using findFrom_end [of c pre] by simp
next
  case (Cons x xs)
  show ?case
  proof (cases "x = c")
    case True
    then show ?thesis by (subst findFrom.simps) simp
  next
    case False
    have "findFrom c (pre @ x # xs) (length pre) =
            findFrom c ((pre @ [x]) @ xs) (length (pre @ [x]))"
      using False by (subst findFrom.simps) simp
    also have "\<dots> = (if c \<in> set xs
                      then int (length (pre @ [x]) + length (takeWhile (\<lambda>x. x \<noteq> c) xs))
                      else - 1)"
      by (rule Cons.IH)
    finally show ?thesis using False by auto
  qed
qed

lemma drop_length_append: "drop (length xs) (xs @ ys) = ys"
  by simp

lemma take_prefix_plus: "take (nat (int (length xs + n))) (xs @ ys) = xs @ take n ys"
proof -
  have "nat (int (length xs + n)) = length xs + n" by (rule nat_int)
  then show ?thesis by simp
qed

text \<open>
  For a URL \<open>rtsp://<cred>@<rest>\<close> whose segment \<open>cred\<close> holds no \<open>@\<close>, the display string
  is \<open>rtsp://\<close> followed by \<open>rest\<close> up to its first slash.
\<close>

lemma cleanRTSPUrl_credentials:
  assumes "CHR ''@'' \<notin> set cred"
  shows "cleanRTSPUrl (''rtsp://'' @ cred @ ''@'' @ rest) =
           ''rtsp://'' @ takeWhile (\<lambda>x. x \<noteq> CHR ''/'') rest"
proof -
  let ?P = "\<lambda>x. x \<noteq> CHR ''@''"
  let ?host = "takeWhile (\<lambda>x. x \<noteq> CHR ''/'') rest"
  have tw: "takeWhile ?P (cred @ ''@'' @ rest) = cred"
  proof -
    have "takeWhile ?P (cred @ CHR ''@'' # rest) = takeWhile ?P cred"
      by (rule takeWhile_tail) simp
    also have "\<dots> = cred" using assms by (auto simp add: takeWhile_eq_all_conv)
    finally show ?thesis by simp
  qed
  have at: "findFrom (CHR ''@'') (''rtsp://'' @ cred @ ''@'' @ rest) (length ''rtsp://'')
              = int (length ''rtsp://'' + length cred)"
    using findFrom_append [of "CHR ''@''" "''rtsp://''" "cred @ ''@'' @ rest"] tw by simp
  have dr: "drop (nat (int (length ''rtsp://'' + length cred) + 1))
              (''rtsp://'' @ cred @ ''@'' @ rest) = rest"
  proof -
    have n: "nat (int (length ''rtsp://'' + length cred) + 1) = length (''rtsp://'' @ cred @ ''@'')"
      by simp
    have "drop (length (''rtsp://'' @ cred @ ''@'')) ((''rtsp://'' @ cred @ ''@'') @ rest) = rest"
      by (rule drop_length_append)
    then show ?thesis unfolding n by simp
  qed
  have url1: "(if int (length ''rtsp://'' + length cred) > - 1
               then ''rtsp://'' @ rest else ''rtsp://'' @ cred @ ''@'' @ rest) = ''rtsp://'' @ rest"
    by simp
  have sl: "findFrom (CHR ''/'') (''rtsp://'' @ rest) (length ''rtsp://'') =
              (if CHR ''/'' \<in> set rest then int (length ''rtsp://'' + length ?host) else - 1)"
    by (rule findFrom_append)
  have res: "(if findFrom (CHR ''/'') (''rtsp://'' @ rest) (length ''rtsp://'') > - 1
              then take (nat (findFrom (CHR ''/'') (''rtsp://'' @ rest) (length ''rtsp://'')))
                     (''rtsp://'' @ rest)
              else ''rtsp://'' @ rest) = ''rtsp://'' @ ?host"
  proof (cases "CHR ''/'' \<in> set rest")
    case True
    have "take (length ?host) rest = ?host"
      by (metis append_eq_conv_conj takeWhile_dropWhile_id)
    then have tk: "take (nat (int (length ''rtsp://'' + length ?host))) (''rtsp://'' @ rest)
                     = ''rtsp://'' @ ?host"
      using take_prefix_plus [of "''rtsp://''" "length ?host" rest] by (simp only:)
    have pos: "- 1 < int (length ''rtsp://'' + length ?host)" by simp
    show ?thesis unfolding sl by (simp only: True if_True pos tk)
  next
    case False
    then have "\<forall>x\<in>set rest. x \<noteq> CHR ''/''" by auto
    then have host: "?host = rest" by (simp only: takeWhile_eq_all_conv)
    have neg: "\<not> - 1 < (- 1 :: int)" by simp
    show ?thesis unfolding sl by (simp only: False if_False neg host)
  qed
  show ?thesis
    unfolding cleanRTSPUrl_def Let_def at dr url1 by (rule res)
qed

text \<open>
  Claim C10, as stated, says that the display string does not contain the credential
  segment. The string is built from the text after the \<open>@\<close>, which can hold the same
  characters: for user \<open>cam\<close> on host \<open>cam\<close> the display string \<open>rtsp://cam\<close> contains \<open>cam\<close>.
\<close>

theorem display_contains_segment_counterexample:
  "cleanRTSPUrl (''rtsp://'' @ ''cam'' @ ''@'' @ ''cam/live'') = ''rtsp://cam'' \<and>
   sublist ''cam'' (cleanRTSPUrl (''rtsp://'' @ ''cam'' @ ''@'' @ ''cam/live''))"
proof -
  have eq: "cleanRTSPUrl (''rtsp://'' @ ''cam'' @ ''@'' @ ''cam/live'') = ''rtsp://cam''"
    by code_simp
  have "sublist ''cam'' (''rtsp://'' @ ''cam'')" by (rule sublist_append_leftI)
  then show ?thesis unfolding eq by simp
qed

text \<open>
  Claim C10, amended. Two URLs \<open>rtsp://<c1>@<rest>\<close> and \<open>rtsp://<c2>@<rest>\<close> that differ
  only in the segment before the first \<open>@\<close> get the same display string, namely
  \<open>rtsp://\<close> followed by \<open>rest\<close> up to its first slash; the segment is not copied into it,
  so the display string contains the segment only if \<open>rtsp://<rest>\<close> already does.
\<close>

theorem cleanRTSPUrl_independent_of_credentials:
  assumes "CHR ''@'' \<notin> set c1" and "CHR ''@'' \<notin> set c2"
  shows "cleanRTSPUrl (''rtsp://'' @ c1 @ ''@'' @ rest) =
           cleanRTSPUrl (''rtsp://'' @ c2 @ ''@'' @ rest) \<and>
         cleanRTSPUrl (''rtsp://'' @ c1 @ ''@'' @ rest) =
           ''rtsp://'' @ takeWhile (\<lambda>x. x \<noteq> CHR ''/'') rest \<and>
         (\<not> sublist c1 (''rtsp://'' @ rest) \<longrightarrow>
            \<not> sublist c1 (cleanRTSPUrl (''rtsp://'' @ c1 @ ''@'' @ rest)))"
proof -
  let ?host = "takeWhile (\<lambda>x. x \<noteq> CHR ''/'') rest"
  have r1: "cleanRTSPUrl (''rtsp://'' @ c1 @ ''@'' @ rest) = ''rtsp://'' @ ?host"
    using assms(1) by (rule cleanRTSPUrl_credentials)
  have r2: "cleanRTSPUrl (''rtsp://'' @ c2 @ ''@'' @ rest) = ''rtsp://'' @ ?host"
    using assms(2) by (rule cleanRTSPUrl_credentials)
  have "prefix (''rtsp://'' @ ?host) (''rtsp://'' @ rest)"
    by (simp add: takeWhile_is_prefix)
  then have sub: "sublist (''rtsp://'' @ ?host) (''rtsp://'' @ rest)"
    by (rule prefix_imp_sublist)
  have "sublist c1 (''rtsp://'' @ ?host) \<Longrightarrow> sublist c1 (''rtsp://'' @ rest)"
    using sub by (rule sublist_order.order_trans [rotated])
  then show ?thesis unfolding r1 r2 by blast
qed

theorem cleanRTSPUrl_independent_of_credentials_witness:
  "cleanRTSPUrl (''rtsp://'' @ ''admin:secret'' @ ''@'' @ ''cam.local:554/live/1'') =
     cleanRTSPUrl (''rtsp://'' @ ''guest'' @ ''@'' @ ''cam.local:554/live/1'') \<and>
   cleanRTSPUrl (''rtsp://'' @ ''admin:secret'' @ ''@'' @ ''cam.local:554/live/1'') =
     ''rtsp://cam.local:554'' \<and>
   \<not> sublist ''admin:secret''
       (cleanRTSPUrl (''rtsp://'' @ ''admin:secret'' @ ''@'' @ ''cam.local:554/live/1''))"
proof -
  have h1: "CHR ''@'' \<notin> set ''admin:secret''" by simp
  have h2: "CHR ''@'' \<notin> set ''guest''" by simp
  have h3: "\<not> sublist ''admin:secret'' (''rtsp://'' @ ''cam.local:554/live/1'')" by code_simp
  have tw: "takeWhile (\<lambda>x. x \<noteq> CHR ''/'') ''cam.local:554/live/1'' = ''cam.local:554''" by simp
  have host: "''rtsp://'' @ ''cam.local:554'' = ''rtsp://cam.local:554''" by simp
  show ?thesis
    using cleanRTSPUrl_independent_of_credentials [OF h1 h2, of "''cam.local:554/live/1''"] h3
    unfolding tw host by blast
qed

section \<open>Properties of the activity tracking\<close>

text \<open>
  Initialisation, level messages with a non-negative level and activity ticks keep the
  maps \<open>tracked\<close>.
\<close>

lemma tracked_initRTSP:
  "tracked st \<Longrightarrow> tracked (initRTSP auth nowAt i urls st)"
proof (induction urls arbitrary: i st)
  case Nil
  then show ?case by simp
next
  case (Cons url rest)
  have "tracked \<lparr>levels = (levels st)(url \<mapsto> \<lparr>Level = 0, Clipping = False, Source = url,
                     Name = (if auth then cleanRTSPUrl url else cameraName i)\<rparr>),
            lastUpdateTime = (lastUpdateTime st)(url \<mapsto> nowAt i),
            lastNonZeroTime = (lastNonZeroTime st)(url \<mapsto> nowAt i)\<rparr>"
    using Cons.prems by (auto simp: tracked_def)
  then show ?case using Cons.IH by (simp add: Let_def)
qed

lemma tracked_initializeLevelsData:
  "tracked (initializeLevelsData cfg auth nowDevice nowAt)"
  unfolding initializeLevelsData_def Let_def
  by (rule tracked_initRTSP) (auto simp: tracked_def)

lemma tracked_updateAudioLevels:
  assumes "tracked st" and "0 \<le> Level audioData"
  shows "tracked (updateAudioLevels cfg now audioData auth threshold st)"
  using assms
  unfolding tracked_def updateAudioLevels_def Let_def
  by (auto split: option.splits if_splits)

lemma tracked_checkSourceActivity:
  assumes "tracked st"
  shows "tracked (snd (checkSourceActivity now threshold st))"
  using assms
  unfolding tracked_def checkSourceActivity_def Let_def
  by (auto split: option.splits if_splits)

lemma tracked_sseStep:
  "tracked st \<Longrightarrow> levelNonNegative e \<Longrightarrow> tracked (sseStep cfg st e)"
  by (cases e) (simp_all add: tracked_updateAudioLevels tracked_checkSourceActivity)

lemma tracked_foldl:
  "tracked st \<Longrightarrow> \<forall>e\<in>set evs. levelNonNegative e \<Longrightarrow> tracked (foldl (sseStep cfg) st evs)"
  by (induction evs arbitrary: st) (simp_all add: tracked_sseStep)

lemma tracked_sseRun:
  "\<forall>e\<in>set evs. levelNonNegative e \<Longrightarrow> tracked (sseRun cfg auth nowDevice nowAt evs)"
  unfolding sseRun_def by (rule tracked_foldl [OF tracked_initializeLevelsData])

text \<open>A source that lacks one of the two times counts as active (the guard of line 76).\<close>

lemma isSourceInactive_needs_both:
  "lastUpdateTimes source = None \<or> lastNonZeroTimes source = None \<Longrightarrow>
   \<not> isSourceInactive source now lastUpdateTimes lastNonZeroTimes threshold"
  by (auto simp: isSourceInactive_def split: option.splits)

lemma dom_checkSourceActivity:
  "dom (levels (snd (checkSourceActivity now threshold st))) = dom (levels st)"
  unfolding checkSourceActivity_def Let_def
  by (auto split: option.splits if_splits simp: dom_def)

lemma checkSourceActivity_zero:
  assumes "tracked st" and "levels st source = Some data"
    and "(\<exists>t. lastUpdateTime st source = Some t \<and> now - t > threshold) \<or>
         (\<exists>t. lastNonZeroTime st source = Some t \<and> now - t > threshold)"
  shows "levels (snd (checkSourceActivity now threshold st)) source = Some (data\<lparr>Level := 0\<rparr>)"
proof -
  from assms(1,2) obtain lu where lu: "lastUpdateTime st source = Some lu"
    unfolding tracked_def by blast
  show ?thesis
  proof (cases "lastNonZeroTime st source")
    case None
    with assms(1,2) have "Level data = 0" unfolding tracked_def by blast
    then have "data\<lparr>Level := 0\<rparr> = data" by simp
    then show ?thesis using assms(2) None lu
      unfolding checkSourceActivity_def Let_def isSourceInactive_def by simp
  next
    case (Some lnz)
    with assms(3) lu have "now - lu > threshold \<or> now - lnz > threshold" by auto
    then have "isSourceInactive source now (lastUpdateTime st) (lastNonZeroTime st) threshold"
      unfolding isSourceInactive_def using lu Some by (simp add: Let_def)
    then show ?thesis using assms(2)
      unfolding checkSourceActivity_def Let_def by (cases "Level data = 0") auto
  qed
qed

text \<open>
  Claim C7. In every state the handler reaches, a source with a level entry whose last
  update time or last non-zero time lies more than the threshold before \<open>now\<close> has level 0
  after \<open>checkSourceActivity\<close>, its entry is still there (with its other fields), and the
  set of sources in \<open>levels\<close> is unchanged. The handler passes the constant of 15 seconds
  as threshold.
\<close>

theorem inactive_source_reports_zero:
  assumes "\<forall>e\<in>set evs. levelNonNegative e"
    and "st = sseRun cfg isAuthenticated nowDevice nowAt evs"
    and "levels st source = Some data"
    and "(\<exists>t. lastUpdateTime st source = Some t \<and> now - t > threshold) \<or>
         (\<exists>t. lastNonZeroTime st source = Some t \<and> now - t > threshold)"
  shows "levels (snd (checkSourceActivity now threshold st)) source = Some (data\<lparr>Level := 0\<rparr>) \<and>
         dom (levels (snd (checkSourceActivity now threshold st))) = dom (levels st)"
proof -
  have "tracked st" unfolding assms(2) using assms(1) by (rule tracked_sseRun)
  then have "levels (snd (checkSourceActivity now threshold st)) source = Some (data\<lparr>Level := 0\<rparr>)"
    using assms(3,4) by (rule checkSourceActivity_zero)
  then show ?thesis by (simp add: dom_checkSourceActivity)
qed

lemma exampleRun_levels:
  "levels exampleRun ''malgo'' = Some \<lparr>Level = 40, Clipping = False, Source = ''malgo'', Name = ''hw:0''\<rparr>"
  by (simp add: exampleRun_def exampleSettings_def sseRun_def initializeLevelsData_def
      updateAudioLevels_def isSourceInactive_def inactivityThreshold_def Let_def)

lemma exampleRun_lastUpdate:
  "lastUpdateTime exampleRun ''malgo'' = Some 1000000000"
  by (simp add: exampleRun_def exampleSettings_def sseRun_def initializeLevelsData_def
      updateAudioLevels_def isSourceInactive_def inactivityThreshold_def Let_def)

theorem inactive_source_reports_zero_witness:
  "levels exampleRun ''malgo'' =
     Some \<lparr>Level = 40, Clipping = False, Source = ''malgo'', Name = ''hw:0''\<rparr> \<and>
   lastUpdateTime exampleRun ''malgo'' = Some 1000000000 \<and>
   levels (snd (checkSourceActivity 20000000000 inactivityThreshold exampleRun)) ''malgo'' =
     Some \<lparr>Level = 0, Clipping = False, Source = ''malgo'', Name = ''hw:0''\<rparr> \<and>
   dom (levels (snd (checkSourceActivity 20000000000 inactivityThreshold exampleRun))) =
     dom (levels exampleRun)"
proof -
  have h1: "\<forall>e\<in>set [LevelMessage \<lparr>Level = 40, Clipping = False, Source = ''malgo'', Name = []\<rparr>
        1000000000 True]. levelNonNegative e" by simp
  have h4: "(\<exists>t. lastUpdateTime exampleRun ''malgo'' = Some t \<and> 20000000000 - t > inactivityThreshold) \<or>
         (\<exists>t. lastNonZeroTime exampleRun ''malgo'' = Some t \<and> 20000000000 - t > inactivityThreshold)"
    using exampleRun_lastUpdate by (simp add: inactivityThreshold_def)
  show ?thesis
    using inactive_source_reports_zero [OF h1 exampleRun_def exampleRun_levels h4]
      exampleRun_levels exampleRun_lastUpdate by simp
qed

section \<open>Properties of the reconfiguration\<close>

subsection \<open>The first loop: streams that left the settings\<close>

lemma stopStream_state:
  "fst (stopStream u s) =
     s\<lparr>activeStreams := removeAll u (activeStreams s),
       ffmpegProcesses := ffmpegProcesses s - {u},
       analysisBuffers := analysisBuffers s - {u},
       captureBuffers := captureBuffers s - {u}\<rparr>"
  by (simp add: stopStream_def Cleanup_process_def RemoveAnalysisBuffer_def
      RemoveCaptureBuffer_def Let_def)

lemma stopRemoved_state:
  "fst (stopRemoved urls cur s) =
     s\<lparr>activeStreams := filter (\<lambda>v. v \<notin> set cur - set urls) (activeStreams s),
       ffmpegProcesses := ffmpegProcesses s - (set cur - set urls),
       analysisBuffers := analysisBuffers s - (set cur - set urls),
       captureBuffers := captureBuffers s - (set cur - set urls)\<rparr>"
proof (induction cur arbitrary: s)
  case Nil
  show ?case by simp
next
  case (Cons u rest)
  show ?case
  proof (cases "u \<in> set urls")
    case True
    then have "set (u # rest) - set urls = set rest - set urls" by auto
    then show ?thesis using True Cons.IH [of s] by simp
  next
    case False
    have R: "set (u # rest) - set urls = insert u (set rest - set urls)" using False by auto
    have "fst (stopRemoved urls (u # rest) s) = fst (stopRemoved urls rest (fst (stopStream u s)))"
      using False by (simp add: split_beta Let_def)
    also have "\<dots> = (fst (stopStream u s))
        \<lparr>activeStreams := filter (\<lambda>v. v \<notin> set rest - set urls) (activeStreams (fst (stopStream u s))),
          ffmpegProcesses := ffmpegProcesses (fst (stopStream u s)) - (set rest - set urls),
          analysisBuffers := analysisBuffers (fst (stopStream u s)) - (set rest - set urls),
          captureBuffers := captureBuffers (fst (stopStream u s)) - (set rest - set urls)\<rparr>"
      by (rule Cons.IH)
    also have "\<dots> = s\<lparr>activeStreams := filter (\<lambda>v. v \<notin> set (u # rest) - set urls) (activeStreams s),
       ffmpegProcesses := ffmpegProcesses s - (set (u # rest) - set urls),
       analysisBuffers := analysisBuffers s - (set (u # rest) - set urls),
       captureBuffers := captureBuffers s - (set (u # rest) - set urls)\<rparr>"
    proof -
      have f: "filter (\<lambda>v. v \<notin> set rest - set urls) (removeAll u (activeStreams s)) =
               filter (\<lambda>v. v \<notin> insert u (set rest - set urls)) (activeStreams s)"
        by (induction "activeStreams s") (auto simp: removeAll_filter_not_eq intro: filter_cong)
      have d: "A - {u} - (set rest - set urls) = A - insert u (set rest - set urls)" for A :: "string set"
        by auto
      show ?thesis unfolding stopStream_state R using f by (simp add: d)
    qed
    finally show ?thesis .
  qed
qed




subsection \<open>The second loop: streams to start\<close>

lemmas startStream_unfold =
  startStream_def AllocateAnalysisBuffer_def AllocateCaptureBuffer_def RemoveCaptureBuffer_def Let_def


lemma startStream_active_set:
  "set (activeStreams s) \<subseteq> set (activeStreams (fst (startStream available u s))) \<and>
   set (activeStreams (fst (startStream available u s))) \<subseteq> insert u (set (activeStreams s))"
  by (auto simp add: startStream_unfold)

lemma startStream_analysis:
  "analysisBuffers s \<subseteq> analysisBuffers (fst (startStream available u s)) \<and>
   analysisBuffers (fst (startStream available u s)) \<subseteq> insert u (analysisBuffers s)"
  by (auto simp add: startStream_unfold)

lemma startStream_capture:
  "captureBuffers s \<subseteq> captureBuffers (fst (startStream available u s)) \<and>
   captureBuffers (fst (startStream available u s)) \<subseteq> insert u (captureBuffers s)"
  by (auto simp add: startStream_unfold)

lemma startStream_events:
  "e \<in> set (snd (startStream available u s)) \<Longrightarrow> eventSource e = Some u"
  by (auto simp add: startStream_unfold split: if_splits)


lemma startStream_no_ack:
  "DrainAck v \<notin> set (snd (startStream available u s))"
  by (auto simp add: startStream_unfold split: if_splits)

lemma startStreams_unfold:
  "startStreams available (u # rest) s =
     (fst (startStreams available rest (fst (startStream available u s))),
      snd (startStream available u s) @ snd (startStreams available rest (fst (startStream available u s))))"
  by (simp add: split_beta Let_def)


lemma startStreams_active_set:
  "set (activeStreams s) \<subseteq> set (activeStreams (fst (startStreams available urls s))) \<and>
   set (activeStreams (fst (startStreams available urls s))) \<subseteq> set (activeStreams s) \<union> set urls"
proof (induction urls arbitrary: s)
  case Nil
  show ?case by simp
next
  case (Cons u rest)
  show ?case
    using Cons.IH [of "fst (startStream available u s)"] startStream_active_set [of s available u]
    unfolding startStreams_unfold by auto
qed

lemma startStreams_analysis:
  "analysisBuffers s \<subseteq> analysisBuffers (fst (startStreams available urls s)) \<and>
   analysisBuffers (fst (startStreams available urls s)) \<subseteq> analysisBuffers s \<union> set urls"
proof (induction urls arbitrary: s)
  case Nil
  show ?case by simp
next
  case (Cons u rest)
  show ?case
    using Cons.IH [of "fst (startStream available u s)"] startStream_analysis [of s available u]
    unfolding startStreams_unfold by auto
qed

lemma startStreams_capture:
  "captureBuffers s \<subseteq> captureBuffers (fst (startStreams available urls s)) \<and>
   captureBuffers (fst (startStreams available urls s)) \<subseteq> captureBuffers s \<union> set urls"
proof (induction urls arbitrary: s)
  case Nil
  show ?case by simp
next
  case (Cons u rest)
  show ?case
    using Cons.IH [of "fst (startStream available u s)"] startStream_capture [of s available u]
    unfolding startStreams_unfold by auto
qed

lemma startStreams_events:
  "e \<in> set (snd (startStreams available urls s)) \<Longrightarrow> \<exists>u\<in>set urls. eventSource e = Some u"
proof (induction urls arbitrary: s)
  case Nil
  then show ?case by simp
next
  case (Cons u rest)
  then show ?case
    unfolding startStreams_unfold using startStream_events [of e available u s] by auto
qed


lemma Reconfigure_unfold:
  assumes ne: "urls \<noteq> []"
  shows "ReconfigureRTSPStreams available urls s =
     (let s1 = s\<lparr>ffmpegMonitor := True\<rparr>;
          s2 = fst (stopRemoved urls (activeStreams s) s1)
      in (fst (startStreams available urls s2),
          (if ffmpegMonitor s then [] else [MonitorStart])
          @ snd (stopRemoved urls (activeStreams s) s1)
          @ snd (startStreams available urls s2)))"
proof (cases "ffmpegMonitor s")
  case True
  then have eq: "s\<lparr>ffmpegMonitor := True\<rparr> = s" by simp
  show ?thesis unfolding eq using True ne
    by (simp add: ReconfigureRTSPStreams_def split_beta Let_def)
next
  case False
  then show ?thesis using ne
    by (simp add: ReconfigureRTSPStreams_def split_beta Let_def)
qed



subsection \<open>Order of events around a removal\<close>

lemma sleptBeforeFree_no_remove:
  "\<forall>k. Remove k u \<notin> set tr \<Longrightarrow> sleptBeforeFree u tr"
  unfolding sleptBeforeFree_def by auto

lemma sleptBeforeFree_append:
  assumes "sleptBeforeFree u t1" and "sleptBeforeFree u t2"
  shows "sleptBeforeFree u (t1 @ t2)"
  unfolding sleptBeforeFree_def
proof (intro allI impI)
  fix pre k post
  assume eq: "t1 @ t2 = pre @ Remove k u # post"
  then consider us where "t1 = pre @ us" "us @ t2 = Remove k u # post"
    | us where "t1 @ us = pre" "t2 = us @ Remove k u # post"
    by (auto simp: append_eq_append_conv2)
  then show "\<exists>a c. pre = a @ [Deactivate u, LogRemoved u, Sleep 100] @ c"
  proof cases
    case 1
    show ?thesis
    proof (cases us)
      case Nil
      with 1 have "t2 = [] @ Remove k u # post" by simp
      with assms(2) obtain a c where "[] = a @ [Deactivate u, LogRemoved u, Sleep 100] @ c"
        unfolding sleptBeforeFree_def by blast
      then show ?thesis by simp
    next
      case (Cons e us')
      with 1 have "t1 = pre @ Remove k u # us'" by simp
      with assms(1) show ?thesis unfolding sleptBeforeFree_def by blast
    qed
  next
    case 2
    with assms(2) obtain a c where "us = a @ [Deactivate u, LogRemoved u, Sleep 100] @ c"
      unfolding sleptBeforeFree_def by blast
    with 2 have "pre = (t1 @ a) @ [Deactivate u, LogRemoved u, Sleep 100] @ c" by simp
    then show ?thesis by blast
  qed
qed

lemma sleptBeforeFree_guard:
  "sleptBeforeFree u ([Deactivate u, LogRemoved u, Sleep 100] @ rest)"
  unfolding sleptBeforeFree_def
proof (intro allI impI)
  fix pre k post
  assume "[Deactivate u, LogRemoved u, Sleep 100] @ rest = pre @ Remove k u # post"
  then obtain c where "pre = [Deactivate u, LogRemoved u, Sleep 100] @ c"
    by (auto simp: Cons_eq_append_conv)
  then have "pre = [] @ [Deactivate u, LogRemoved u, Sleep 100] @ c" by simp
  then show "\<exists>a c. pre = a @ [Deactivate u, LogRemoved u, Sleep 100] @ c" by blast
qed

lemma stopStream_trace:
  "snd (stopStream u s) =
     (if u \<in> ffmpegProcesses s then [Cleanup u, Sleep 100] else [])
     @ [Deactivate u, LogRemoved u, Sleep 100]
     @ ([Remove AnalysisBuffer u]
        @ (if u \<notin> analysisBuffers s then [LogRemoveFailed AnalysisBuffer u] else [])
        @ [Remove CaptureBuffer u]
        @ (if u \<notin> captureBuffers s then [LogRemoveFailed CaptureBuffer u] else []))"
  by (simp add: stopStream_def Cleanup_process_def RemoveAnalysisBuffer_def
      RemoveCaptureBuffer_def Let_def)

lemma stopStream_slept: "sleptBeforeFree v (snd (stopStream u s))"
proof (cases "v = u")
  case True
  have "sleptBeforeFree u (if u \<in> ffmpegProcesses s then [Cleanup u, Sleep 100] else [])"
    by (rule sleptBeforeFree_no_remove) simp
  then show ?thesis unfolding stopStream_trace True
    by (intro sleptBeforeFree_append sleptBeforeFree_guard)
next
  case False
  then show ?thesis unfolding stopStream_trace
    by (intro sleptBeforeFree_no_remove) auto
qed

lemma stopRemoved_unfold:
  "u \<notin> set urls \<Longrightarrow>
   stopRemoved urls (u # rest) s =
     (fst (stopRemoved urls rest (fst (stopStream u s))),
      snd (stopStream u s) @ snd (stopRemoved urls rest (fst (stopStream u s))))"
  by (simp add: split_beta Let_def)

lemma stopRemoved_slept: "sleptBeforeFree v (snd (stopRemoved urls cur s))"
proof (induction cur arbitrary: s)
  case Nil
  show ?case by (simp add: sleptBeforeFree_def)
next
  case (Cons u rest)
  show ?case
  proof (cases "u \<in> set urls")
    case True
    then show ?thesis using Cons.IH by simp
  next
    case False
    show ?thesis unfolding stopRemoved_unfold [OF False]
      using stopStream_slept Cons.IH by (simp add: sleptBeforeFree_append)
  qed
qed

lemma stopRemoved_frees:
  "u \<in> set cur \<Longrightarrow> u \<notin> set urls \<Longrightarrow>
   Remove AnalysisBuffer u \<in> set (snd (stopRemoved urls cur s)) \<and>
   Remove CaptureBuffer u \<in> set (snd (stopRemoved urls cur s))"
proof (induction cur arbitrary: s)
  case Nil
  then show ?case by simp
next
  case (Cons x rest)
  show ?case
  proof (cases "x \<in> set urls")
    case True
    with Cons.prems have "u \<in> set rest" by auto
    then show ?thesis using True Cons.IH Cons.prems(2) by simp
  next
    case False
    show ?thesis
    proof (cases "x = u")
      case True
      show ?thesis
        unfolding True stopRemoved_unfold [OF Cons.prems(2)] stopStream_trace by simp
    next
      case neq: False
      with Cons.prems have "u \<in> set rest" by auto
      then show ?thesis unfolding stopRemoved_unfold [OF False]
        using Cons.IH Cons.prems(2) by simp
    qed
  qed
qed

lemma stopRemoved_no_ack: "DrainAck v \<notin> set (snd (stopRemoved urls cur s))"
proof (induction cur arbitrary: s)
  case Nil
  show ?case by simp
next
  case (Cons u rest)
  show ?case
  proof (cases "u \<in> set urls")
    case True
    then show ?thesis using Cons.IH by simp
  next
    case False
    show ?thesis unfolding stopRemoved_unfold [OF False]
      using Cons.IH by (simp add: stopStream_trace)
  qed
qed

lemma startStreams_no_ack: "DrainAck v \<notin> set (snd (startStreams available urls s))"
  by (induction urls arbitrary: s)
     (simp_all add: startStreams_unfold startStream_no_ack del: startStreams.simps(2))

text \<open>The decoder process is cleaned up before the buffers are removed.\<close>

lemma cleanedBeforeFree_no_remove:
  "\<forall>k. Remove k u \<notin> set tr \<Longrightarrow> cleanedBeforeFree u tr"
  unfolding cleanedBeforeFree_def by auto

lemma cleanedBeforeFree_append:
  assumes "cleanedBeforeFree u t1" and "Cleanup u \<in> set t1 \<or> cleanedBeforeFree u t2"
  shows "cleanedBeforeFree u (t1 @ t2)"
  unfolding cleanedBeforeFree_def
proof (intro allI impI)
  fix pre k post
  assume eq: "t1 @ t2 = pre @ Remove k u # post"
  then consider us where "t1 = pre @ us" "us @ t2 = Remove k u # post"
    | us where "t1 @ us = pre" "t2 = us @ Remove k u # post"
    by (auto simp: append_eq_append_conv2)
  then show "Cleanup u \<in> set pre"
  proof cases
    case 1
    show ?thesis
    proof (cases us)
      case Nil
      with 1 have pre: "pre = t1" and t2: "t2 = [] @ Remove k u # post" by simp_all
      from assms(2) show ?thesis
      proof
        assume "Cleanup u \<in> set t1"
        then show ?thesis using pre by simp
      next
        assume "cleanedBeforeFree u t2"
        with t2 have "Cleanup u \<in> set []" unfolding cleanedBeforeFree_def by blast
        then show ?thesis by simp
      qed
    next
      case (Cons e us')
      with 1 have "t1 = pre @ Remove k u # us'" by simp
      with assms(1) show ?thesis unfolding cleanedBeforeFree_def by blast
    qed
  next
    case 2
    from assms(2) show ?thesis
    proof
      assume "Cleanup u \<in> set t1"
      then show ?thesis using 2 by auto
    next
      assume "cleanedBeforeFree u t2"
      with 2 have "Cleanup u \<in> set us" unfolding cleanedBeforeFree_def by blast
      then show ?thesis using 2 by auto
    qed
  qed
qed

lemma cleanedBeforeFree_first:
  "cleanedBeforeFree u (Cleanup u # rest)"
  unfolding cleanedBeforeFree_def
  by (auto simp: Cons_eq_append_conv)

lemma stopStream_cleaned:
  assumes "u \<in> ffmpegProcesses s"
  shows "Cleanup u \<in> set (snd (stopStream u s)) \<and> cleanedBeforeFree u (snd (stopStream u s))"
  unfolding stopStream_trace using assms cleanedBeforeFree_first by simp

lemma stopStream_other_cleaned:
  assumes "x \<noteq> u"
  shows "cleanedBeforeFree u (snd (stopStream x s))"
  unfolding stopStream_trace using assms by (intro cleanedBeforeFree_no_remove) auto

lemma stopRemoved_cleaned:
  assumes "u \<in> ffmpegProcesses s"
  shows "cleanedBeforeFree u (snd (stopRemoved urls cur s)) \<and>
         (u \<in> set cur \<and> u \<notin> set urls \<longrightarrow> Cleanup u \<in> set (snd (stopRemoved urls cur s)))"
  using assms
proof (induction cur arbitrary: s)
  case Nil
  show ?case by (simp add: cleanedBeforeFree_def)
next
  case (Cons x rest)
  show ?case
  proof (cases "x \<in> set urls")
    case True
    then show ?thesis using Cons.IH [OF Cons.prems] by auto
  next
    case False
    show ?thesis
    proof (cases "x = u")
      case True
      have c: "Cleanup u \<in> set (snd (stopStream u s))"
        and b: "cleanedBeforeFree u (snd (stopStream u s))"
        using stopStream_cleaned [OF Cons.prems] by simp_all
      have "cleanedBeforeFree u
              (snd (stopStream u s) @ snd (stopRemoved urls rest (fst (stopStream u s))))"
        using b c by (intro cleanedBeforeFree_append) simp_all
      then show ?thesis
        using c False unfolding True stopRemoved_unfold [OF False [unfolded True]] by simp
    next
      case neq: False
      have "u \<in> ffmpegProcesses (fst (stopStream x s))"
        unfolding stopStream_state using Cons.prems neq by simp
      from Cons.IH [OF this]
      have ih: "cleanedBeforeFree u (snd (stopRemoved urls rest (fst (stopStream x s))))"
        and ih2: "u \<in> set rest \<and> u \<notin> set urls \<longrightarrow>
                  Cleanup u \<in> set (snd (stopRemoved urls rest (fst (stopStream x s))))"
        by simp_all
      have "cleanedBeforeFree u
              (snd (stopStream x s) @ snd (stopRemoved urls rest (fst (stopStream x s))))"
        using stopStream_other_cleaned [OF neq] ih by (intro cleanedBeforeFree_append) simp_all
      then show ?thesis
        using ih2 neq unfolding stopRemoved_unfold [OF False] by auto
    qed
  qed
qed

lemma startStream_processes:
  "ffmpegProcesses (fst (startStream available u s)) = ffmpegProcesses s"
  by (simp add: startStream_unfold)

lemma startStreams_processes:
  "ffmpegProcesses (fst (startStreams available urls s)) = ffmpegProcesses s"
  by (induction urls arbitrary: s)
     (simp_all add: startStreams_unfold startStream_processes del: startStreams.simps(2))

text \<open>
  Claim C1, amended. For a source that is active and no longer in a non-empty URL list,
  the call cleans up the decoder process of the source if it has one, unmarks the stream
  and removes both buffers. Every removal of a buffer of that source comes after the
  cleanup of its process (if any), after the stream has been unmarked and after a sleep of
  100 ms that follows the unmarking. No drain acknowledgment occurs in the trace: the
  wait is the fixed sleep.
\<close>

theorem removal_frees_after_sleep:
  assumes "ReconfigureRTSPStreams available urls s = (s', tr)"
    and "urls \<noteq> []" and "u \<in> set (activeStreams s)" and "u \<notin> set urls"
  shows "u \<notin> set (activeStreams s') \<and> u \<notin> ffmpegProcesses s' \<and>
         u \<notin> analysisBuffers s' \<and> u \<notin> captureBuffers s' \<and>
         Remove AnalysisBuffer u \<in> set tr \<and> Remove CaptureBuffer u \<in> set tr \<and>
         sleptBeforeFree u tr \<and>
         (u \<in> ffmpegProcesses s \<longrightarrow> Cleanup u \<in> set tr \<and> cleanedBeforeFree u tr) \<and>
         (\<forall>v. DrainAck v \<notin> set tr)"
proof -
  let ?t1 = "s\<lparr>ffmpegMonitor := True\<rparr>"
  let ?t2 = "fst (stopRemoved urls (activeStreams s) ?t1)"
  let ?ev1 = "if ffmpegMonitor s then [] else [MonitorStart]"
  let ?ev2 = "snd (stopRemoved urls (activeStreams s) ?t1)"
  let ?ev3 = "snd (startStreams available urls ?t2)"
  have s': "s' = fst (startStreams available urls ?t2)" and tr: "tr = ?ev1 @ ?ev2 @ ?ev3"
    using assms(1) unfolding Reconfigure_unfold [OF assms(2)] Let_def by auto
  have gone: "u \<notin> set (activeStreams ?t2) \<and> u \<notin> analysisBuffers ?t2 \<and> u \<notin> captureBuffers ?t2
              \<and> u \<notin> ffmpegProcesses ?t2"
    unfolding stopRemoved_state using assms(3,4) by simp
  have st: "u \<notin> set (activeStreams s') \<and> u \<notin> ffmpegProcesses s' \<and>
            u \<notin> analysisBuffers s' \<and> u \<notin> captureBuffers s'"
    unfolding s'
    using gone assms(4) startStreams_active_set [of ?t2 available urls]
      startStreams_analysis [of ?t2 available urls] startStreams_capture [of ?t2 available urls]
      startStreams_processes [of available urls ?t2]
    by auto
  have fr: "Remove AnalysisBuffer u \<in> set tr \<and> Remove CaptureBuffer u \<in> set tr"
    unfolding tr using stopRemoved_frees [OF assms(3,4), of ?t1] by simp
  have no3: "\<forall>k. Remove k u \<notin> set ?ev3"
    using startStreams_events [of _ available urls ?t2] assms(4) by fastforce
  then have g3: "sleptBeforeFree u ?ev3" by (rule sleptBeforeFree_no_remove)
  have g1: "sleptBeforeFree u ?ev1" by (rule sleptBeforeFree_no_remove) simp
  have sl: "sleptBeforeFree u tr"
    unfolding tr by (intro sleptBeforeFree_append g1 g3 stopRemoved_slept)
  have cl: "Cleanup u \<in> set tr \<and> cleanedBeforeFree u tr" if p: "u \<in> ffmpegProcesses s"
  proof -
    from p have p1: "u \<in> ffmpegProcesses ?t1" by simp
    note c = stopRemoved_cleaned [OF p1, of urls "activeStreams s"]
    have c1: "cleanedBeforeFree u ?ev1" by (rule cleanedBeforeFree_no_remove) simp
    have c3: "cleanedBeforeFree u ?ev3" using no3 by (rule cleanedBeforeFree_no_remove)
    have "cleanedBeforeFree u (?ev2 @ ?ev3)"
      using c c3 by (intro cleanedBeforeFree_append) simp_all
    with c1 have "cleanedBeforeFree u (?ev1 @ ?ev2 @ ?ev3)"
      by (intro cleanedBeforeFree_append) simp_all
    moreover have "Cleanup u \<in> set (?ev1 @ ?ev2 @ ?ev3)"
      using c assms(3,4) by simp
    ultimately show ?thesis unfolding tr by simp
  qed
  have na: "\<forall>v. DrainAck v \<notin> set tr"
    unfolding tr using stopRemoved_no_ack startStreams_no_ack by simp
  show ?thesis using st fr sl cl na by blast
qed

subsection \<open>A failed allocation and the other sources\<close>

lemma startStream_other:
  assumes "x \<noteq> u"
  shows "(u \<in> set (activeStreams (fst (startStream available x s))) \<longleftrightarrow> u \<in> set (activeStreams s)) \<and>
         (u \<in> analysisBuffers (fst (startStream available x s)) \<longleftrightarrow> u \<in> analysisBuffers s) \<and>
         (u \<in> captureBuffers (fst (startStream available x s)) \<longleftrightarrow> u \<in> captureBuffers s)"
  using assms startStream_active_set [of s available x] startStream_analysis [of s available x]
    startStream_capture [of s available x]
  by auto

lemma startStream_fail:
  assumes "u \<notin> set (activeStreams s)" and "allocationFails available s u"
  shows "u \<notin> set (activeStreams (fst (startStream available u s))) \<and>
         allocationFails available (fst (startStream available u s)) u \<and>
         (\<exists>k. LogAllocFailed k u \<in> set (snd (startStream available u s))) \<and>
         Spawn u \<notin> set (snd (startStream available u s))"
  using assms unfolding allocationFails_def
  by (auto simp add: startStream_unfold)

lemma startStream_attempt:
  assumes "u \<notin> set (activeStreams s)" and "u \<notin> analysisBuffers s \<or> u \<notin> captureBuffers s"
  shows "\<exists>k. Allocate k u \<in> set (snd (startStream available u s))"
  using assms by (auto simp add: startStream_unfold)

lemma startStreams_fail:
  assumes "u \<notin> set (activeStreams s)" and "allocationFails available s u"
  shows "u \<notin> set (activeStreams (fst (startStreams available urls s))) \<and>
         allocationFails available (fst (startStreams available urls s)) u \<and>
         (u \<in> set urls \<longrightarrow> (\<exists>k. LogAllocFailed k u \<in> set (snd (startStreams available urls s)))) \<and>
         Spawn u \<notin> set (snd (startStreams available urls s))"
  using assms
proof (induction urls arbitrary: s)
  case Nil
  then show ?case by simp
next
  case (Cons x rest)
  let ?s1 = "fst (startStream available x s)"
  have step: "u \<notin> set (activeStreams ?s1) \<and> allocationFails available ?s1 u \<and>
              (x = u \<longrightarrow> (\<exists>k. LogAllocFailed k u \<in> set (snd (startStream available x s)))) \<and>
              Spawn u \<notin> set (snd (startStream available x s))"
  proof (cases "x = u")
    case True
    then show ?thesis using startStream_fail [OF Cons.prems] by simp
  next
    case False
    have "Spawn u \<notin> set (snd (startStream available x s))"
      using startStream_events [of "Spawn u" available x s] False by auto
    then show ?thesis
      using False Cons.prems startStream_other [OF False, of available s]
      unfolding allocationFails_def by auto
  qed
  from step have ih: "u \<notin> set (activeStreams (fst (startStreams available rest ?s1))) \<and>
         allocationFails available (fst (startStreams available rest ?s1)) u \<and>
         (u \<in> set rest \<longrightarrow> (\<exists>k. LogAllocFailed k u \<in> set (snd (startStreams available rest ?s1)))) \<and>
         Spawn u \<notin> set (snd (startStreams available rest ?s1))"
    by (intro Cons.IH) auto
  show ?case unfolding startStreams_unfold using step ih by auto
qed

lemma startStreams_attempt:
  assumes "u \<in> set urls" and "u \<notin> set (activeStreams s)"
    and "u \<notin> analysisBuffers s \<or> u \<notin> captureBuffers s"
  shows "\<exists>k. Allocate k u \<in> set (snd (startStreams available urls s))"
  using assms
proof (induction urls arbitrary: s)
  case Nil
  then show ?case by simp
next
  case (Cons x rest)
  show ?case
  proof (cases "x = u")
    case True
    then show ?thesis unfolding startStreams_unfold
      using startStream_attempt [OF Cons.prems(2,3), of available] by auto
  next
    case False
    let ?s1 = "fst (startStream available x s)"
    have "u \<in> set rest" using False Cons.prems(1) by auto
    moreover have "u \<notin> set (activeStreams ?s1)"
      and "u \<notin> analysisBuffers ?s1 \<or> u \<notin> captureBuffers ?s1"
      using Cons.prems(2,3) startStream_other [OF False, of available s] by auto
    ultimately have "\<exists>k. Allocate k u \<in> set (snd (startStreams available rest ?s1))"
      by (rule Cons.IH)
    then show ?thesis unfolding startStreams_unfold by auto
  qed
qed

lemma eventsOfOthers_append [simp]:
  "eventsOfOthers u (a @ b) = eventsOfOthers u a @ eventsOfOthers u b"
  by (simp add: eventsOfOthers_def)

lemma eventsOfOthers_own:
  "\<forall>e\<in>set tr. eventSource e = Some u \<Longrightarrow> eventsOfOthers u tr = []"
  by (induction tr) (auto simp: eventsOfOthers_def)

lemma eventsOfOthers_other:
  "\<forall>e\<in>set tr. eventSource e = Some x \<Longrightarrow> x \<noteq> u \<Longrightarrow> eventsOfOthers u tr = tr"
  by (induction tr) (auto simp: eventsOfOthers_def)

lemma agreeExcept_refl: "agreeExcept u s s"
  by (simp add: agreeExcept_def)

lemma agreeExcept_member:
  assumes "agreeExcept u s t" and "x \<noteq> u"
  shows "(x \<in> set (activeStreams s) \<longleftrightarrow> x \<in> set (activeStreams t)) \<and>
         (x \<in> analysisBuffers s \<longleftrightarrow> x \<in> analysisBuffers t) \<and>
         (x \<in> captureBuffers s \<longleftrightarrow> x \<in> captureBuffers t)"
proof -
  have "x \<in> set (activeStreams s) \<longleftrightarrow> x \<in> set (filter (\<lambda>v. v \<noteq> u) (activeStreams s))"
    using assms(2) by simp
  also have "\<dots> \<longleftrightarrow> x \<in> set (filter (\<lambda>v. v \<noteq> u) (activeStreams t))"
    using assms(1) by (simp add: agreeExcept_def)
  also have "\<dots> \<longleftrightarrow> x \<in> set (activeStreams t)" using assms(2) by simp
  finally have a: "x \<in> set (activeStreams s) \<longleftrightarrow> x \<in> set (activeStreams t)" .
  have "x \<in> analysisBuffers s \<longleftrightarrow> x \<in> analysisBuffers s - {u}" using assms(2) by simp
  also have "\<dots> \<longleftrightarrow> x \<in> analysisBuffers t - {u}" using assms(1) by (simp add: agreeExcept_def)
  also have "\<dots> \<longleftrightarrow> x \<in> analysisBuffers t" using assms(2) by simp
  finally have b: "x \<in> analysisBuffers s \<longleftrightarrow> x \<in> analysisBuffers t" .
  have "x \<in> captureBuffers s \<longleftrightarrow> x \<in> captureBuffers s - {u}" using assms(2) by simp
  also have "\<dots> \<longleftrightarrow> x \<in> captureBuffers t - {u}" using assms(1) by (simp add: agreeExcept_def)
  also have "\<dots> \<longleftrightarrow> x \<in> captureBuffers t" using assms(2) by simp
  finally have c: "x \<in> captureBuffers s \<longleftrightarrow> x \<in> captureBuffers t" .
  show ?thesis using a b c by blast
qed

text \<open>An iteration for the source itself changes nothing that concerns the others.\<close>

lemma startStream_own_agree:
  "agreeExcept u (fst (startStream available u s)) s"
  unfolding agreeExcept_def
  by (auto simp add: startStream_unfold)

lemma agreeExcept_trans:
  "agreeExcept u a b \<Longrightarrow> agreeExcept u b c \<Longrightarrow> agreeExcept u a c"
  by (simp add: agreeExcept_def)

lemma agreeExcept_sym: "agreeExcept u a b \<Longrightarrow> agreeExcept u b a"
  by (simp add: agreeExcept_def)

text \<open>An iteration for another source takes the same branch in both states.\<close>

lemma startStream_other_agree:
  assumes "agreeExcept u s t" and "x \<noteq> u"
    and "\<forall>k. available' k x = available k x"
  shows "agreeExcept u (fst (startStream available x s)) (fst (startStream available' x t)) \<and>
         snd (startStream available x s) = snd (startStream available' x t)"
proof -
  note m = agreeExcept_member [OF assms(1,2)]
  have av: "available' AnalysisBuffer x = available AnalysisBuffer x"
    "available' CaptureBuffer x = available CaptureBuffer x"
    using assms(3) by auto
  have d: "insert x A - {u} = insert x (A - {u})" for A :: "string set"
    using assms(2) by auto
  show ?thesis
    using assms(1) m
    unfolding agreeExcept_def startStream_unfold av
    by (auto simp add: d assms(2))
qed

lemma startStreams_agree:
  assumes "agreeExcept u s t" and "\<forall>k v. v \<noteq> u \<longrightarrow> available' k v = available k v"
  shows "agreeExcept u (fst (startStreams available urls s)) (fst (startStreams available' urls t)) \<and>
         eventsOfOthers u (snd (startStreams available urls s)) =
         eventsOfOthers u (snd (startStreams available' urls t))"
  using assms(1)
proof (induction urls arbitrary: s t)
  case Nil
  then show ?case by simp
next
  case (Cons x rest)
  let ?s1 = "fst (startStream available x s)"
  let ?t1 = "fst (startStream available' x t)"
  have step: "agreeExcept u ?s1 ?t1 \<and>
              eventsOfOthers u (snd (startStream available x s)) =
              eventsOfOthers u (snd (startStream available' x t))"
  proof (cases "x = u")
    case True
    have "agreeExcept u ?s1 s" unfolding True by (rule startStream_own_agree)
    moreover have "agreeExcept u t ?t1"
      unfolding True by (rule agreeExcept_sym [OF startStream_own_agree])
    ultimately have "agreeExcept u ?s1 ?t1"
      using Cons.prems by (blast intro: agreeExcept_trans)
    moreover have "eventsOfOthers u (snd (startStream available x s)) = []"
      unfolding True by (rule eventsOfOthers_own) (simp add: startStream_events)
    moreover have "eventsOfOthers u (snd (startStream available' x t)) = []"
      unfolding True by (rule eventsOfOthers_own) (simp add: startStream_events)
    ultimately show ?thesis by simp
  next
    case False
    have "\<forall>k. available' k x = available k x" using assms(2) False by simp
    with Cons.prems False show ?thesis
      using startStream_other_agree [of u s t x available' available] by simp
  qed
  then have "agreeExcept u (fst (startStreams available rest ?s1)) (fst (startStreams available' rest ?t1)) \<and>
         eventsOfOthers u (snd (startStreams available rest ?s1)) =
         eventsOfOthers u (snd (startStreams available' rest ?t1))"
    by (intro Cons.IH) simp
  then show ?case unfolding startStreams_unfold using step by simp
qed

lemma stopRemoved_no_spawn: "Spawn v \<notin> set (snd (stopRemoved urls cur s))"
proof (induction cur arbitrary: s)
  case Nil
  show ?case by simp
next
  case (Cons u rest)
  show ?case
  proof (cases "u \<in> set urls")
    case True
    then show ?thesis using Cons.IH by simp
  next
    case False
    show ?thesis unfolding stopRemoved_unfold [OF False]
      using Cons.IH by (simp add: stopStream_trace)
  qed
qed

text \<open>
  Claim C3. Let an allocation for the inactive source \<open>u\<close> of the URL list fail during a
  call. Then \<open>u\<close> is not started (no capture goroutine, not marked active) and the failure
  is logged. Every other source is processed as in a run that differs only in the
  resources for \<open>u\<close>: the resulting states agree except on \<open>u\<close>, and the events not
  about \<open>u\<close> are the same, in the same order. The next call with the same list attempts an
  allocation for \<open>u\<close> again.
\<close>

theorem allocation_failure_isolated:
  assumes "u \<in> set urls" and "u \<notin> set (activeStreams s)"
    and "allocationFails available s u"
    and "\<forall>k v. v \<noteq> u \<longrightarrow> available' k v = available k v"
    and "ReconfigureRTSPStreams available urls s = (s1, tr1)"
    and "ReconfigureRTSPStreams available' urls s = (s1', tr1')"
    and "ReconfigureRTSPStreams available2 urls s1 = (s2, tr2)"
  shows "u \<notin> set (activeStreams s1) \<and> Spawn u \<notin> set tr1 \<and>
         (\<exists>k. LogAllocFailed k u \<in> set tr1) \<and>
         agreeExcept u s1 s1' \<and> eventsOfOthers u tr1 = eventsOfOthers u tr1' \<and>
         (\<exists>k. Allocate k u \<in> set tr2)"
proof -
  from assms(1) have ne: "urls \<noteq> []" by auto
  let ?t1 = "s\<lparr>ffmpegMonitor := True\<rparr>"
  let ?t2 = "fst (stopRemoved urls (activeStreams s) ?t1)"
  let ?ev1 = "if ffmpegMonitor s then [] else [MonitorStart]"
  let ?ev2 = "snd (stopRemoved urls (activeStreams s) ?t1)"
  have s1: "s1 = fst (startStreams available urls ?t2)"
    and tr1: "tr1 = ?ev1 @ ?ev2 @ snd (startStreams available urls ?t2)"
    using assms(5) unfolding Reconfigure_unfold [OF ne] Let_def by auto
  have s1': "s1' = fst (startStreams available' urls ?t2)"
    and tr1': "tr1' = ?ev1 @ ?ev2 @ snd (startStreams available' urls ?t2)"
    using assms(6) unfolding Reconfigure_unfold [OF ne] Let_def by auto
  have inact: "u \<notin> set (activeStreams ?t2)"
    unfolding stopRemoved_state using assms(2) by simp
  have fails: "allocationFails available ?t2 u"
    using assms(1,3) unfolding stopRemoved_state allocationFails_def by simp
  note f = startStreams_fail [OF inact fails, of urls]
  have skipped: "u \<notin> set (activeStreams s1)" unfolding s1 using f by blast
  have nospawn: "Spawn u \<notin> set tr1"
    unfolding tr1 using f stopRemoved_no_spawn by simp
  have logged: "\<exists>k. LogAllocFailed k u \<in> set tr1"
    unfolding tr1 using f assms(1) by auto
  have agree: "agreeExcept u s1 s1' \<and> eventsOfOthers u tr1 = eventsOfOthers u tr1'"
    unfolding s1 s1' tr1 tr1'
    using startStreams_agree [of u ?t2 ?t2 available' available urls] agreeExcept_refl [of u ?t2]
      assms(4) by simp
  have missing: "u \<notin> analysisBuffers s1 \<or> u \<notin> captureBuffers s1"
    using f unfolding s1 allocationFails_def by blast
  let ?r1 = "s1\<lparr>ffmpegMonitor := True\<rparr>"
  let ?r2 = "fst (stopRemoved urls (activeStreams s1) ?r1)"
  have tr2: "tr2 = (if ffmpegMonitor s1 then [] else [MonitorStart])
               @ snd (stopRemoved urls (activeStreams s1) ?r1) @ snd (startStreams available2 urls ?r2)"
    using assms(7) unfolding Reconfigure_unfold [OF ne] Let_def by auto
  have "u \<notin> set (activeStreams ?r2)"
    unfolding stopRemoved_state using skipped by simp
  moreover have "u \<notin> analysisBuffers ?r2 \<or> u \<notin> captureBuffers ?r2"
    unfolding stopRemoved_state using missing by auto
  ultimately have "\<exists>k. Allocate k u \<in> set (snd (startStreams available2 urls ?r2))"
    using assms(1) by (intro startStreams_attempt)
  then have retried: "\<exists>k. Allocate k u \<in> set tr2" unfolding tr2 by auto
  show ?thesis using skipped nospawn logged agree retried by blast
qed

subsection \<open>Example runs\<close>

lemmas reconfigure_eval =
  ReconfigureRTSPStreams_def startStream_def stopStream_def AllocateAnalysisBuffer_def
  AllocateCaptureBuffer_def RemoveAnalysisBuffer_def RemoveCaptureBuffer_def
  Cleanup_process_def oneStream_def idle_def Let_def

lemma replace_stream:
  "ReconfigureRTSPStreams (\<lambda>k u. True) [''rtsp://b''] oneStream =
     (\<lparr>ffmpegMonitor = True, activeStreams = [''rtsp://b''], ffmpegProcesses = {},
       analysisBuffers = {''rtsp://b''}, captureBuffers = {''rtsp://b''}\<rparr>,
      [Cleanup ''rtsp://a'', Sleep 100, Deactivate ''rtsp://a'', LogRemoved ''rtsp://a'',
       Sleep 100, Remove AnalysisBuffer ''rtsp://a'', Remove CaptureBuffer ''rtsp://a'',
       Allocate AnalysisBuffer ''rtsp://b'', Allocate CaptureBuffer ''rtsp://b'',
       Activate ''rtsp://b'', Spawn ''rtsp://b''])"
  by (simp add: reconfigure_eval)



text \<open>
  Claim C1, as stated, requires a drain acknowledgment of the writer before the buffers
  are freed. Replacing the running stream \<open>rtsp://a\<close> by \<open>rtsp://b\<close> frees both buffers of
  \<open>rtsp://a\<close> after \<open>Cleanup\<close> and two sleeps, with no acknowledgment in between.
\<close>

theorem free_without_ack_counterexample:
  "snd (ReconfigureRTSPStreams (\<lambda>k u. True) [''rtsp://b''] oneStream) =
     [Cleanup ''rtsp://a'', Sleep 100, Deactivate ''rtsp://a'', LogRemoved ''rtsp://a'',
      Sleep 100, Remove AnalysisBuffer ''rtsp://a'', Remove CaptureBuffer ''rtsp://a'',
      Allocate AnalysisBuffer ''rtsp://b'', Allocate CaptureBuffer ''rtsp://b'',
      Activate ''rtsp://b'', Spawn ''rtsp://b''] \<and>
   \<not> spec_freedAfterAck [] (snd (ReconfigureRTSPStreams (\<lambda>k u. True) [''rtsp://b''] oneStream))"
  by (simp add: replace_stream)

theorem removal_frees_after_sleep_witness:
  "''rtsp://a'' \<notin> set (activeStreams (fst (ReconfigureRTSPStreams (\<lambda>k u. True) [''rtsp://b''] oneStream))) \<and>
   ''rtsp://a'' \<notin> ffmpegProcesses (fst (ReconfigureRTSPStreams (\<lambda>k u. True) [''rtsp://b''] oneStream)) \<and>
   ''rtsp://a'' \<notin> analysisBuffers (fst (ReconfigureRTSPStreams (\<lambda>k u. True) [''rtsp://b''] oneStream)) \<and>
   ''rtsp://a'' \<notin> captureBuffers (fst (ReconfigureRTSPStreams (\<lambda>k u. True) [''rtsp://b''] oneStream)) \<and>
   Remove AnalysisBuffer ''rtsp://a'' \<in> set (snd (ReconfigureRTSPStreams (\<lambda>k u. True) [''rtsp://b''] oneStream)) \<and>
   Remove CaptureBuffer ''rtsp://a'' \<in> set (snd (ReconfigureRTSPStreams (\<lambda>k u. True) [''rtsp://b''] oneStream)) \<and>
   sleptBeforeFree ''rtsp://a'' (snd (ReconfigureRTSPStreams (\<lambda>k u. True) [''rtsp://b''] oneStream)) \<and>
   Cleanup ''rtsp://a'' \<in> set (snd (ReconfigureRTSPStreams (\<lambda>k u. True) [''rtsp://b''] oneStream)) \<and>
   cleanedBeforeFree ''rtsp://a'' (snd (ReconfigureRTSPStreams (\<lambda>k u. True) [''rtsp://b''] oneStream))"
proof -
  have h1: "ReconfigureRTSPStreams (\<lambda>k u. True) [''rtsp://b''] oneStream =
    (fst (ReconfigureRTSPStreams (\<lambda>k u. True) [''rtsp://b''] oneStream),
     snd (ReconfigureRTSPStreams (\<lambda>k u. True) [''rtsp://b''] oneStream))" by simp
  have h2: "[''rtsp://b''] \<noteq> []" by simp
  have h3: "''rtsp://a'' \<in> set (activeStreams oneStream)" by (simp add: oneStream_def)
  have h4: "''rtsp://a'' \<notin> set [''rtsp://b'']" by simp
  have h5: "''rtsp://a'' \<in> ffmpegProcesses oneStream" by (simp add: oneStream_def)
  show ?thesis using removal_frees_after_sleep [OF h1 h2 h3 h4] h5 by blast
qed



lemma partial_start:
  "ReconfigureRTSPStreams (\<lambda>k v. v \<noteq> ''rtsp://b'') [''rtsp://b'', ''rtsp://c''] idle =
     (\<lparr>ffmpegMonitor = True, activeStreams = [''rtsp://c''], ffmpegProcesses = {},
       analysisBuffers = {''rtsp://c''}, captureBuffers = {''rtsp://c''}\<rparr>,
      [MonitorStart, Allocate AnalysisBuffer ''rtsp://b'', LogAllocFailed AnalysisBuffer ''rtsp://b'',
       Allocate AnalysisBuffer ''rtsp://c'', Allocate CaptureBuffer ''rtsp://c'',
       Activate ''rtsp://c'', Spawn ''rtsp://c''])"
  by (simp add: reconfigure_eval)

theorem allocation_failure_isolated_witness:
  "snd (ReconfigureRTSPStreams (\<lambda>k v. v \<noteq> ''rtsp://b'') [''rtsp://b'', ''rtsp://c''] idle) =
     [MonitorStart, Allocate AnalysisBuffer ''rtsp://b'', LogAllocFailed AnalysisBuffer ''rtsp://b'',
      Allocate AnalysisBuffer ''rtsp://c'', Allocate CaptureBuffer ''rtsp://c'',
      Activate ''rtsp://c'', Spawn ''rtsp://c''] \<and>
   ''rtsp://b'' \<notin> set (activeStreams
      (fst (ReconfigureRTSPStreams (\<lambda>k v. v \<noteq> ''rtsp://b'') [''rtsp://b'', ''rtsp://c''] idle))) \<and>
   agreeExcept ''rtsp://b''
      (fst (ReconfigureRTSPStreams (\<lambda>k v. v \<noteq> ''rtsp://b'') [''rtsp://b'', ''rtsp://c''] idle))
      (fst (ReconfigureRTSPStreams (\<lambda>k v. True) [''rtsp://b'', ''rtsp://c''] idle)) \<and>
   eventsOfOthers ''rtsp://b''
      (snd (ReconfigureRTSPStreams (\<lambda>k v. v \<noteq> ''rtsp://b'') [''rtsp://b'', ''rtsp://c''] idle)) =
   eventsOfOthers ''rtsp://b''
      (snd (ReconfigureRTSPStreams (\<lambda>k v. True) [''rtsp://b'', ''rtsp://c''] idle)) \<and>
   (\<exists>k. Allocate k ''rtsp://b'' \<in> set
      (snd (ReconfigureRTSPStreams (\<lambda>k v. True) [''rtsp://b'', ''rtsp://c'']
         (fst (ReconfigureRTSPStreams (\<lambda>k v. v \<noteq> ''rtsp://b'')
                 [''rtsp://b'', ''rtsp://c''] idle)))))"
proof -
  let ?av = "\<lambda>(k::bufferKind) v. v \<noteq> ''rtsp://b''"
  let ?all = "\<lambda>(k::bufferKind) (v::string). True"
  let ?urls = "[''rtsp://b'', ''rtsp://c'']"
  have h1: "''rtsp://b'' \<in> set ?urls" by simp
  have h2: "''rtsp://b'' \<notin> set (activeStreams idle)" by (simp add: idle_def)
  have h3: "allocationFails ?av idle ''rtsp://b''" by (simp add: allocationFails_def idle_def)
  have h4: "\<forall>k v. v \<noteq> ''rtsp://b'' \<longrightarrow> ?all k v = ?av k v" by simp
  have h5: "ReconfigureRTSPStreams ?av ?urls idle =
    (fst (ReconfigureRTSPStreams ?av ?urls idle), snd (ReconfigureRTSPStreams ?av ?urls idle))"
    by simp
  have h6: "ReconfigureRTSPStreams ?all ?urls idle =
    (fst (ReconfigureRTSPStreams ?all ?urls idle), snd (ReconfigureRTSPStreams ?all ?urls idle))"
    by simp
  have h7: "ReconfigureRTSPStreams ?all ?urls (fst (ReconfigureRTSPStreams ?av ?urls idle)) =
    (fst (ReconfigureRTSPStreams ?all ?urls (fst (ReconfigureRTSPStreams ?av ?urls idle))),
     snd (ReconfigureRTSPStreams ?all ?urls (fst (ReconfigureRTSPStreams ?av ?urls idle))))"
    by simp
  have tr: "snd (ReconfigureRTSPStreams ?av ?urls idle) =
     [MonitorStart, Allocate AnalysisBuffer ''rtsp://b'', LogAllocFailed AnalysisBuffer ''rtsp://b'',
      Allocate AnalysisBuffer ''rtsp://c'', Allocate CaptureBuffer ''rtsp://c'',
      Activate ''rtsp://c'', Spawn ''rtsp://c'']"
    by (simp add: partial_start)
  show ?thesis
    using allocation_failure_isolated [OF h1 h2 h3 h4 h5 h6 h7] tr by blast
qed

end
